theory Spec2Isabelle
  imports Complex_Main
begin

section \<open>The scene graph of src/src/index.ts\<close>

text \<open>
  The program keeps a graph of shape objects. Every object has an identity, a list of
  children (references to other objects) and a back-link to a parent (a reference or
  null). Objects are mutated in place and may be reached through several references, so
  the model is an explicit store: a reference is a natural number, the store maps every
  reference to the object it names.

  The numbers that the objects and the events hold are finite and modelled as real
  numbers. The containment tests compare the result of a computation with a bound, and
  at the bound the rounding of each operation decides the answer: there every operation
  is the operation on doubles, rounded to the nearest double and overflowing to an
  infinity (subsection Numbers). The additions that resolve a position and that advance
  a text from line to line are the sums themselves. A
  JavaScript string is modelled as a list of characters, one element for each unit that
  \<open>split('')\<close> yields.
\<close>

type_synonym ref = nat

text \<open>A canvas 2D context is an object of its own; a Scene holds a reference to one.\<close>

type_synonym cid = nat

text \<open>
  The five concrete classes that extend BaseShape, with the fields each class adds:
  Rectangle (strokeColor), Circle (radius, fillColor), CustomText (text, font,
  fillColor), Scene (its drawing context), PalaceContainer (strokeColor).
\<close>

datatype kind =
    Rectangle string
  | Circle real string
  | CustomText string string string
  | Scene cid
  | PalaceContainer string

text \<open>The fields of BaseShape (lines 40 to 49), and the class of the object.\<close>

record shape =
  x :: real
  y :: real
  width :: real
  height :: real
  children :: "ref list"
  parent :: "ref option"
  variant :: kind

type_synonym heap = "ref \<Rightarrow> shape"

text \<open>The interface HandleEvent (lines 5 to 9) and the class MouseClickEvent.\<close>

datatype HandleEvent = HandleEvent (ev_type: string) (ev_x: real) (ev_y: real)

definition MouseClickEvent :: "real \<Rightarrow> real \<Rightarrow> HandleEvent" where
  "MouseClickEvent px py = HandleEvent ''click'' px py"

subsection \<open>Constructors\<close>

text \<open>
  Each constructor passes its geometry to the constructor of BaseShape; a new object has
  no children and no parent. The default values of the colour and font parameters are
  left to the caller, who passes every argument.
\<close>

definition BaseShape :: "real \<Rightarrow> real \<Rightarrow> real \<Rightarrow> real \<Rightarrow> kind \<Rightarrow> shape" where
  "BaseShape px py w h k =
     \<lparr>x = px, y = py, width = w, height = h, children = [], parent = None, variant = k\<rparr>"

definition new_Rectangle :: "real \<Rightarrow> real \<Rightarrow> real \<Rightarrow> real \<Rightarrow> string \<Rightarrow> shape" where
  "new_Rectangle px py w h strokeColor = BaseShape px py w h (Rectangle strokeColor)"

definition new_Circle :: "real \<Rightarrow> real \<Rightarrow> real \<Rightarrow> string \<Rightarrow> shape" where
  "new_Circle px py radius fillColor =
     BaseShape px py (radius * 2) (radius * 2) (Circle radius fillColor)"

definition new_CustomText :: "real \<Rightarrow> real \<Rightarrow> string \<Rightarrow> string \<Rightarrow> string \<Rightarrow> shape" where
  "new_CustomText px py txt fnt fillColor = BaseShape px py 0 0 (CustomText txt fnt fillColor)"

definition new_PalaceContainer :: "real \<Rightarrow> real \<Rightarrow> real \<Rightarrow> real \<Rightarrow> string \<Rightarrow> shape" where
  "new_PalaceContainer px py w h strokeColor = BaseShape px py w h (PalaceContainer strokeColor)"

text \<open>
  The Scene constructor calls \<open>super(0, 0, 0, 0)\<close> and then sets width and height to
  those of its canvas, which are parameters here.
\<close>

definition new_Scene :: "cid \<Rightarrow> real \<Rightarrow> real \<Rightarrow> shape" where
  "new_Scene c canvasWidth canvasHeight =
     (BaseShape 0 0 0 0 (Scene c))\<lparr>width := canvasWidth, height := canvasHeight\<rparr>"

subsection \<open>addChild and removeChild\<close>

text \<open>
  \<open>addChild\<close> (lines 55 to 58): push the child, then set its parent. The two writes
  happen in this order, also when the child is the receiver itself.
\<close>

definition addChild :: "heap \<Rightarrow> ref \<Rightarrow> ref \<Rightarrow> heap" where
  "addChild h this child =
     (let h1 = h(this := (h this)\<lparr>children := children (h this) @ [child]\<rparr>)
      in h1(child := (h1 child)\<lparr>parent := Some this\<rparr>))"

text \<open>\<open>Array.prototype.indexOf\<close> on references: the first index, or -1.\<close>

fun indexOf :: "ref list \<Rightarrow> ref \<Rightarrow> int" where
  "indexOf [] r = -1"
| "indexOf (a # as) r =
     (if a = r then 0 else (let i = indexOf as r in if i = -1 then -1 else i + 1))"

text \<open>\<open>splice(index, 1)\<close> for an index within the array.\<close>

definition splice1 :: "ref list \<Rightarrow> nat \<Rightarrow> ref list" where
  "splice1 cs i = take i cs @ drop (Suc i) cs"

text \<open>\<open>removeChild\<close> (lines 61 to 67).\<close>

definition removeChild :: "heap \<Rightarrow> ref \<Rightarrow> ref \<Rightarrow> heap" where
  "removeChild h this child =
     (let index = indexOf (children (h this)) child
      in if index \<noteq> -1
         then (let h1 = h(this := (h this)\<lparr>children := splice1 (children (h this)) (nat index)\<rparr>)
               in h1(child := (h1 child)\<lparr>parent := None\<rparr>))
         else h)"

subsection \<open>Absolute coordinates\<close>

text \<open>
  \<open>getAbsoluteX\<close> and \<open>getAbsoluteY\<close> (lines 84 to 97) call themselves on the parent;
  the call is dispatched on the class of the parent, and Scene overrides both to return
  0 (lines 287 to 293). Nothing bounds the recursion: on a cyclic parent chain the
  source recurses until the call stack is exhausted and returns no value; the model
  yields \<open>None\<close>.
\<close>

partial_function (option) getAbsoluteX :: "heap \<Rightarrow> ref \<Rightarrow> real option" where
  "getAbsoluteX h n =
     (case variant (h n) of
        Scene c \<Rightarrow> Some 0
      | _ \<Rightarrow>
         (case parent (h n) of
            Some p \<Rightarrow> Option.bind (getAbsoluteX h p) (\<lambda>a. Some (a + x (h n)))
          | None \<Rightarrow> Some (x (h n))))"

partial_function (option) getAbsoluteY :: "heap \<Rightarrow> ref \<Rightarrow> real option" where
  "getAbsoluteY h n =
     (case variant (h n) of
        Scene c \<Rightarrow> Some 0
      | _ \<Rightarrow>
         (case parent (h n) of
            Some p \<Rightarrow> Option.bind (getAbsoluteY h p) (\<lambda>a. Some (a + y (h n)))
          | None \<Rightarrow> Some (y (h n))))"

subsection \<open>Numbers\<close>

text \<open>
  The result of an arithmetic operation on doubles is the exact result rounded to the
  nearest double, a tie going to the double whose significand is even (IEEE 754,
  roundTiesToEven). A double other than 0 is an integer of at most 53 bits times a power
  of two: for \<open>v\<close> between \<open>2^e\<close> and \<open>2^(e+1)\<close> the doubles are the multiples
  of \<open>2^(e-52)\<close>, and below \<open>2^(-1022)\<close> (the subnormal range) the multiples of
  \<open>2^(-1074)\<close>. \<open>double v\<close> is the nearest such number.
\<close>

definition roundTiesToEven :: "real \<Rightarrow> int" where
  "roundTiesToEven q =
     (let f = \<lfloor>q\<rfloor>; r = q - of_int f
      in if r < 1 / 2 then f else if r > 1 / 2 then f + 1 else if even f then f else f + 1)"

definition double :: "real \<Rightarrow> real" where
  "double v =
     (if v = 0 then 0
      else (let u = 2 powr (of_int (max \<lfloor>log 2 \<bar>v\<bar>\<rfloor> (- 1022)) - 52)
            in of_int (roundTiesToEven (v / u)) * u))"

text \<open>
  The values of a computation: a finite double, an infinity or NaN. A result that rounds
  to \<open>2^1024\<close> or more in magnitude is an infinity. (The two zeros are one value: the
  program only compares.)
\<close>

datatype number = Finite real | PosInfinity | NegInfinity | NaN

definition rounded :: "real \<Rightarrow> number" where
  "rounded v =
     (let r = double v
      in if \<bar>r\<bar> < 2 ^ 1024 then Finite r else if 0 < r then PosInfinity else NegInfinity)"

text \<open>The operators \<open>+\<close>, \<open>-\<close>, \<open><=\<close> and \<open>>=\<close> on numbers.\<close>

fun number_add :: "number \<Rightarrow> number \<Rightarrow> number" where
  "number_add (Finite a) (Finite b) = rounded (a + b)"
| "number_add NaN b = NaN"
| "number_add a NaN = NaN"
| "number_add PosInfinity NegInfinity = NaN"
| "number_add NegInfinity PosInfinity = NaN"
| "number_add PosInfinity b = PosInfinity"
| "number_add a PosInfinity = PosInfinity"
| "number_add NegInfinity b = NegInfinity"
| "number_add a NegInfinity = NegInfinity"

fun number_sub :: "number \<Rightarrow> number \<Rightarrow> number" where
  "number_sub (Finite a) (Finite b) = rounded (a - b)"
| "number_sub NaN b = NaN"
| "number_sub a NaN = NaN"
| "number_sub PosInfinity PosInfinity = NaN"
| "number_sub NegInfinity NegInfinity = NaN"
| "number_sub PosInfinity b = PosInfinity"
| "number_sub a PosInfinity = NegInfinity"
| "number_sub NegInfinity b = NegInfinity"
| "number_sub a NegInfinity = PosInfinity"

fun number_le :: "number \<Rightarrow> number \<Rightarrow> bool" where
  "number_le (Finite a) (Finite b) = (a \<le> b)"
| "number_le NaN b = False"
| "number_le a NaN = False"
| "number_le NegInfinity b = True"
| "number_le a PosInfinity = True"
| "number_le a b = False"

definition number_ge :: "number \<Rightarrow> number \<Rightarrow> bool" where
  "number_ge a b = number_le b a"

text \<open>
  \<open>Math.sqrt\<close>, and \<open>Math.pow\<close> with a natural exponent, taken as correctly rounded
  (the program only squares).
\<close>

fun Math_sqrt :: "number \<Rightarrow> number" where
  "Math_sqrt (Finite a) = (if a < 0 then NaN else rounded (sqrt a))"
| "Math_sqrt PosInfinity = PosInfinity"
| "Math_sqrt NegInfinity = NaN"
| "Math_sqrt NaN = NaN"

fun Math_pow :: "number \<Rightarrow> nat \<Rightarrow> number" where
  "Math_pow (Finite a) k = rounded (a ^ k)"
| "Math_pow a 0 = Finite 1"
| "Math_pow NaN k = NaN"
| "Math_pow PosInfinity k = PosInfinity"
| "Math_pow NegInfinity k = (if even k then PosInfinity else NegInfinity)"

subsection \<open>Containment\<close>

text \<open>
  \<open>containsPoint\<close>: the method of BaseShape (lines 70 to 81) and the override of
  Circle (lines 176 to 186). Both resolve the absolute position first, X before Y. Every
  operation of these two methods is an operation on numbers.
\<close>

definition containsPoint :: "heap \<Rightarrow> ref \<Rightarrow> real \<Rightarrow> real \<Rightarrow> bool option" where
  "containsPoint h n px py =
     (case variant (h n) of
        Circle radius fillColor \<Rightarrow>
          Option.bind (getAbsoluteX h n) (\<lambda>ax.
          Option.bind (getAbsoluteY h n) (\<lambda>ay.
            let centerX = number_add (Finite ax) (Finite radius);
                centerY = number_add (Finite ay) (Finite radius);
                distance = Math_sqrt
                  (number_add (Math_pow (number_sub (Finite px) centerX) 2)
                              (Math_pow (number_sub (Finite py) centerY) 2))
            in Some (number_le distance (Finite radius))))
      | _ \<Rightarrow>
          Option.bind (getAbsoluteX h n) (\<lambda>ax.
          Option.bind (getAbsoluteY h n) (\<lambda>ay.
            let localX = number_sub (Finite px) (Finite ax);
                localY = number_sub (Finite py) (Finite ay)
            in Some (number_ge localX (Finite 0) \<and> number_le localX (Finite (width (h n))) \<and>
                     number_ge localY (Finite 0) \<and> number_le localY (Finite (height (h n)))))))"

subsection \<open>Event dispatch\<close>

text \<open>
  What a click handler writes to the console, without the formatting of the numbers:
  the message of BaseShape.onClick (line 118) and of the overrides in Rectangle,
  Circle, CustomText and PalaceContainer.
\<close>

datatype message =
    ClickedOnShape real real
  | ClickedOnRectangle real real
  | ClickedOnCircle real real
  | ClickedOnText string real real
  | PalaceClicked real real

text \<open>
  \<open>onClick\<close>, dispatched on the class. Scene inherits the method of BaseShape. The
  overrides of Rectangle, Circle and CustomText resolve the absolute position, so they
  do not return on a cyclic parent chain either.
\<close>

definition onClick :: "heap \<Rightarrow> ref \<Rightarrow> HandleEvent \<Rightarrow> message option" where
  "onClick h this event =
     (case variant (h this) of
        Rectangle strokeColor \<Rightarrow>
          Option.bind (getAbsoluteX h this) (\<lambda>ax.
          Option.bind (getAbsoluteY h this) (\<lambda>ay. Some (ClickedOnRectangle ax ay)))
      | Circle radius fillColor \<Rightarrow>
          Option.bind (getAbsoluteX h this) (\<lambda>ax.
          Option.bind (getAbsoluteY h this) (\<lambda>ay.
            Some (ClickedOnCircle (ax + radius) (ay + radius))))
      | CustomText txt fnt fillColor \<Rightarrow>
          Option.bind (getAbsoluteX h this) (\<lambda>ax.
          Option.bind (getAbsoluteY h this) (\<lambda>ay. Some (ClickedOnText txt ax ay)))
      | Scene c \<Rightarrow> Some (ClickedOnShape (x (h this)) (y (h this)))
      | PalaceContainer strokeColor \<Rightarrow> Some (PalaceClicked (x (h this)) (y (h this))))"

text \<open>
  \<open>handleEvent\<close> (lines 100 to 114). The loop runs over the children from the last
  index down to 0; \<open>todo\<close> holds the children not yet tested, the next one first.
  Nothing in the method writes to an object, so the result is the list of the handler
  calls made: the receiver of each call and the message it logged. \<open>None\<close> stands for
  a call that does not return.
\<close>

partial_function (option) handleEvent_loop ::
  "heap \<Rightarrow> HandleEvent \<Rightarrow> ref list \<Rightarrow> ref \<Rightarrow> (ref \<times> message) list option" where
  "handleEvent_loop h event todo this =
     (case todo of
        child # rest \<Rightarrow>
          Option.bind (containsPoint h child (ev_x event) (ev_y event)) (\<lambda>hit.
            if hit then handleEvent_loop h event (rev (children (h child))) child
            else handleEvent_loop h event rest this)
      | [] \<Rightarrow>
          if ev_type event = ''click''
          then Option.bind (onClick h this event) (\<lambda>m. Some [(this, m)])
          else Some [])"

definition handleEvent :: "heap \<Rightarrow> ref \<Rightarrow> HandleEvent \<Rightarrow> (ref \<times> message) list option" where
  "handleEvent h this event = handleEvent_loop h event (rev (children (h this))) this"

subsection \<open>Drawing\<close>

text \<open>
  The calls a canvas context receives, in order, and the style properties the program
  assigns. An assignment to a style property is modelled as a plain store.
\<close>

datatype command =
    FillText string real real
  | StrokeRect real real real real
  | BeginPath
  | Arc real real real real real
  | Fill
  | ClearRect real real real real

record context2d =
  font :: string
  fillStyle :: string
  strokeStyle :: string
  commands :: "command list"

record state =
  shapes :: heap
  contexts :: "cid \<Rightarrow> context2d"

definition emit :: "command \<Rightarrow> context2d \<Rightarrow> context2d" where
  "emit k g = g\<lparr>commands := commands g @ [k]\<rparr>"

text \<open>
  The loop \<open>this.text.split('').forEach(...)\<close> of CustomText.draw (lines 212 to 215),
  with the running value of \<open>absY\<close>.
\<close>

fun fillLines :: "string \<Rightarrow> real \<Rightarrow> real \<Rightarrow> context2d \<Rightarrow> context2d \<times> real" where
  "fillLines [] absX absY g = (g, absY)"
| "fillLines (item # items) absX absY g =
     (let absY' = absY + 20 in fillLines items absX absY' (emit (FillText [item] absX absY') g))"

text \<open>
  \<open>this.text.split('')[0]\<close> is \<open>undefined\<close> for the empty string, and
  \<open>measureText\<close> converts its argument to a string.
\<close>

definition firstItem :: "string \<Rightarrow> string" where
  "firstItem txt = (case txt of [] \<Rightarrow> ''undefined'' | item # items \<Rightarrow> [item])"

text \<open>
  What each \<open>draw\<close> does before it draws the children. \<open>M\<close> is the text measurement
  of the host: the width \<open>measureText\<close> reports for a text under the current font of
  the context. The context \<open>ctx\<close> is the argument of \<open>draw\<close>; Scene.draw takes no
  argument and paints on its own context.
\<close>

definition paint ::
  "(string \<Rightarrow> string \<Rightarrow> real) \<Rightarrow> ref \<Rightarrow> cid \<Rightarrow> state \<Rightarrow> state option" where
  "paint M this ctx s =
     (let h = shapes s; g = contexts s ctx in
      case variant (h this) of
        Rectangle strokeColor \<Rightarrow>
          Option.bind (getAbsoluteX h this) (\<lambda>absX.
          Option.bind (getAbsoluteY h this) (\<lambda>absY.
            let g1 = g\<lparr>strokeStyle := strokeColor\<rparr>;
                g2 = emit (StrokeRect absX absY (width (h this)) (height (h this))) g1
            in Some (s\<lparr>contexts := (contexts s)(ctx := g2)\<rparr>)))
      | PalaceContainer strokeColor \<Rightarrow>
          Option.bind (getAbsoluteX h this) (\<lambda>absX.
          Option.bind (getAbsoluteY h this) (\<lambda>absY.
            let g1 = g\<lparr>strokeStyle := strokeColor\<rparr>;
                g2 = emit (StrokeRect absX absY (width (h this)) (height (h this))) g1
            in Some (s\<lparr>contexts := (contexts s)(ctx := g2)\<rparr>)))
      | Circle radius fillColor \<Rightarrow>
          Option.bind (getAbsoluteX h this) (\<lambda>ax.
          Option.bind (getAbsoluteY h this) (\<lambda>ay.
            let absX = ax + radius;
                absY = ay + radius;
                g1 = g\<lparr>fillStyle := fillColor\<rparr>;
                g2 = emit BeginPath g1;
                g3 = emit (Arc absX absY radius 0 (pi * 2)) g2;
                g4 = emit Fill g3
            in Some (s\<lparr>contexts := (contexts s)(ctx := g4)\<rparr>)))
      | CustomText txt fnt fillColor \<Rightarrow>
          Option.bind (getAbsoluteX h this) (\<lambda>absX.
          Option.bind (getAbsoluteY h this) (\<lambda>absY0.
            let g1 = g\<lparr>font := fnt\<rparr>;
                g2 = g1\<lparr>fillStyle := fillColor\<rparr>;
                (g3, absY) = fillLines txt absX absY0 g2;
                w = M (font g3) (firstItem txt);
                this' = (h this)\<lparr>width := w, height := absY + 20\<rparr>
            in Some (s\<lparr>contexts := (contexts s)(ctx := g3), shapes := h(this := this')\<rparr>)))
      | Scene own \<Rightarrow>
          (let g0 = contexts s own;
               g1 = emit (ClearRect 0 0 (width (h this)) (height (h this))) g0
           in Some (s\<lparr>contexts := (contexts s)(own := g1)\<rparr>)))"

text \<open>The context the children are drawn on.\<close>

definition childContext :: "heap \<Rightarrow> ref \<Rightarrow> cid \<Rightarrow> cid" where
  "childContext h this ctx = (case variant (h this) of Scene own \<Rightarrow> own | _ \<Rightarrow> ctx)"

text \<open>\<open>children.forEach(child => child.draw(ctx))\<close>; it stops where a call does not return.\<close>

primrec forEach :: "ref list \<Rightarrow> (ref \<Rightarrow> state \<Rightarrow> state option) \<Rightarrow> state \<Rightarrow> state option" where
  "forEach [] f s = Some s"
| "forEach (child # rest) f s = Option.bind (f child s) (forEach rest f)"

text \<open>
  \<open>draw\<close>, dispatched on the class: paint, then draw every child in sequence order.
  The first argument after \<open>M\<close> bounds the depth of nested \<open>draw\<close> calls; \<open>None\<close>
  means that this depth was not enough, or that resolving a position did not return.
\<close>

primrec draw ::
  "(string \<Rightarrow> string \<Rightarrow> real) \<Rightarrow> nat \<Rightarrow> ref \<Rightarrow> cid \<Rightarrow> state \<Rightarrow> state option" where
  "draw M 0 this ctx s = None"
| "draw M (Suc depth) this ctx s =
     Option.bind (paint M this ctx s) (\<lambda>s1.
       forEach (children (shapes s1 this))
         (\<lambda>child. draw M depth child (childContext (shapes s1) this ctx)) s1)"

section \<open>Vocabulary of the properties\<close>

definition isScene :: "kind \<Rightarrow> bool" where
  "isScene k = (case k of Scene c \<Rightarrow> True | _ \<Rightarrow> False)"

definition isCircle :: "kind \<Rightarrow> bool" where
  "isCircle k = (case k of Circle r f \<Rightarrow> True | _ \<Rightarrow> False)"

text \<open>
  The parent chain of \<open>n\<close> ends (reaches an object without parent) after at most \<open>k\<close>
  links. A chain is finite and acyclic exactly when some \<open>k\<close> bounds it.
\<close>

primrec chainWithin :: "heap \<Rightarrow> nat \<Rightarrow> ref \<Rightarrow> bool" where
  "chainWithin h 0 n = (parent (h n) = None)"
| "chainWithin h (Suc k) n = (case parent (h n) of None \<Rightarrow> True | Some p \<Rightarrow> chainWithin h k p)"

text \<open>
  Every path along child links from \<open>n\<close> has at most \<open>d\<close> links. Child lists are
  finite, so the child tree of \<open>n\<close> is finite and acyclic exactly when some \<open>d\<close>
  bounds it.
\<close>

primrec depthWithin :: "heap \<Rightarrow> nat \<Rightarrow> ref \<Rightarrow> bool" where
  "depthWithin h 0 n = (children (h n) = [])"
| "depthWithin h (Suc d) n = (\<forall>c \<in> set (children (h n)). depthWithin h d c)"

text \<open>The objects reached from \<open>n\<close> along at most \<open>d\<close> child links.\<close>

primrec subtree :: "heap \<Rightarrow> nat \<Rightarrow> ref \<Rightarrow> ref set" where
  "subtree h 0 n = {n}"
| "subtree h (Suc d) n = insert n (\<Union>c \<in> set (children (h n)). subtree h d c)"

text \<open>
  The handler calls of one dispatch: for a click exactly one call, whose receiver is in
  \<open>S\<close>; for any other event none.
\<close>

definition delivered :: "HandleEvent \<Rightarrow> ref set \<Rightarrow> (ref \<times> message) list \<Rightarrow> bool" where
  "delivered e S calls =
     (if ev_type e = ''click'' then \<exists>r \<in> S. \<exists>m. calls = [(r, m)] else calls = [])"

text \<open>
  Two stores that differ at most in the widths and heights of their objects: the only
  fields that \<open>draw\<close> writes.
\<close>

definition sameLayout :: "heap \<Rightarrow> heap \<Rightarrow> bool" where
  "sameLayout h h' =
     (\<forall>m. x (h' m) = x (h m) \<and> y (h' m) = y (h m) \<and> children (h' m) = children (h m) \<and>
          parent (h' m) = parent (h m) \<and> variant (h' m) = variant (h m))"

text \<open>Every context of \<open>s'\<close> has received the calls it had received in \<open>s\<close>, and possibly more.\<close>

definition grown :: "state \<Rightarrow> state \<Rightarrow> bool" where
  "grown s s' = (\<forall>c. \<exists>more. commands (contexts s' c) = commands (contexts s c) @ more)"

text \<open>
  The store of \<open>s\<close> has the layout of \<open>h\<close>, and the text node \<open>n\<close> (string \<open>str\<close>,
  font \<open>fnt\<close>, absolute Y \<open>ay\<close>) has the width and height that a draw gives it.
\<close>

definition settled ::
  "(string \<Rightarrow> string \<Rightarrow> real) \<Rightarrow> heap \<Rightarrow> ref \<Rightarrow> string \<Rightarrow> string \<Rightarrow> real \<Rightarrow> state \<Rightarrow> bool" where
  "settled M h n str fnt ay s =
     (sameLayout h (shapes s) \<and> width (shapes s n) = M fnt (firstItem str) \<and>
      height (shapes s n) = ay + 20 * real (length str) + 20)"

text \<open>\<open>v\<close> is a finite double: rounding leaves it as it is.\<close>

definition isDouble :: "real \<Rightarrow> bool" where
  "isDouble v = (double v = v \<and> \<bar>v\<bar> < 2 ^ 1024)"


section \<open>Example scenes\<close>

text \<open>
  Each example starts from a store whose objects are fresh, puts constructed objects at
  some references and links them with \<open>addChild\<close>, as the application code does.
\<close>

definition blank :: heap where
  "blank = (\<lambda>r. new_Rectangle 0 0 0 0 ''black'')"

text \<open>
  One palace of the chart, built as lines 381 to 402 build each of the twelve: a Scene 0,
  a PalaceContainer 1 at (60, 60), its footer Rectangle 2 with a CustomText 3 inside, and
  a second footer Rectangle 4.
\<close>

definition palace :: heap where
  "palace =
     addChild (addChild (addChild (addChild
       (blank(0 := new_Scene 0 760 920,
              1 := new_PalaceContainer 60 60 160 200 ''black'',
              2 := new_Rectangle 0 140 40 60 ''black'',
              3 := new_CustomText 10 11 ''ab'' ''20px Arial'' ''black'',
              4 := new_Rectangle 40 140 80 60 ''black''))
       2 3) 1 2) 1 4) 0 1"

text \<open>A root Scene 0 with one Rectangle 1 covering (0,0)-(100,50).\<close>

definition rect_under_scene :: heap where
  "rect_under_scene =
     addChild (blank(0 := new_Scene 0 300 150, 1 := new_Rectangle 0 0 100 50 ''blue'')) 0 1"



text \<open>A Rectangle 1 that was added twice to the PalaceContainer 0.\<close>

definition added_twice :: heap where
  "added_twice =
     addChild (addChild (blank(0 := new_PalaceContainer 0 0 160 200 ''black'',
                               1 := new_Rectangle 0 140 40 60 ''black'')) 0 1) 0 1"

text \<open>
  A root Scene 0 with three overlapping Rectangles 1, 2, 3 added in this order:
  (0,0)-(100,100), (50,50)-(150,150) and (60,60)-(160,160).
\<close>

definition three_children :: heap where
  "three_children =
     addChild (addChild (addChild
       (blank(0 := new_Scene 0 300 300,
              1 := new_Rectangle 0 0 100 100 ''black'',
              2 := new_Rectangle 50 50 100 100 ''black'',
              3 := new_Rectangle 60 60 100 100 ''black''))
       0 1) 0 2) 0 3"


text \<open>
  Rectangle 2 was added to itself; Rectangle 1 was added to the PalaceContainer 0 and
  then to 2. The child list of 0 still holds 1, whose parent is now 2.
\<close>

definition stale_child :: heap where
  "stale_child =
     addChild (addChild (addChild
       (blank(0 := new_PalaceContainer 0 0 160 200 ''black'',
              1 := new_Rectangle 0 0 40 60 ''black'',
              2 := new_Rectangle 0 0 40 60 ''black'')) 2 2) 0 1) 2 1"

text \<open>The same, with a further Rectangle 3 added to the container 0 after 1.\<close>

definition stale_and_fresh :: heap where
  "stale_and_fresh = addChild (stale_child(3 := new_Rectangle 0 0 40 60 ''black'')) 0 3"

text \<open>
  As \<open>three_children\<close>, after the Rectangle 1 was also added to the Rectangle 3: 1 is in
  the child lists of the root and of 3, and its parent is 3.
\<close>

definition shared_child :: heap where
  "shared_child = addChild three_children 3 1"





text \<open>A context as the canvas hands it out, and the palace example with such contexts.\<close>

definition newContext :: context2d where
  "newContext =
     \<lparr>font = ''10px sans-serif'', fillStyle = ''#000000'', strokeStyle = ''#000000'',
      commands = []\<rparr>"

definition palace_state :: state where
  "palace_state = \<lparr>shapes = palace, contexts = (\<lambda>c. newContext)\<rparr>"

text \<open>A text measurement for the examples: ten units a character, in every font.\<close>

definition tenPerChar :: "string \<Rightarrow> string \<Rightarrow> real" where
  "tenPerChar fnt str = 10 * real (length str)"

text \<open>The state after the text 3 of the palace example has been drawn on the context 0.\<close>

definition palace_text_drawn :: state where
  "palace_text_drawn =
     \<lparr>shapes = palace(3 := (palace 3)\<lparr>width := 10, height := 271\<rparr>),
      contexts = (\<lambda>c. newContext)(0 := newContext
        \<lparr>font := ''20px Arial'', fillStyle := ''black'',
         commands := [FillText ''a'' 70 231, FillText ''b'' 70 251]\<rparr>)\<rparr>"

section \<open>Lemmas about the operations\<close>

subsection \<open>Numbers\<close>

lemma roundTiesToEven_of_int: "roundTiesToEven (of_int k) = k"
  by (simp add: roundTiesToEven_def)

lemma double_zero: "double 0 = 0"
  by (simp add: double_def)

lemma double_in_binade:
  assumes e: "\<lfloor>log 2 \<bar>v\<bar>\<rfloor> = e" and n: "- 1022 \<le> e"
    and k: "v * 2 powr (52 - of_int e) = q"
  shows "double v = of_int (roundTiesToEven q) * 2 powr (of_int e - 52)"
proof (cases "v = 0")
  case True
  with k have "q = 0" by simp
  with True show ?thesis by (simp add: double_def roundTiesToEven_def)
next
  case False
  have "v / 2 powr (of_int e - 52) = v * 2 powr (52 - of_int e)"
    by (simp add: powr_diff field_simps)
  moreover have "max e (- 1022) = e" using n by simp
  ultimately show ?thesis using False e k by (simp add: double_def Let_def)
qed

lemma double_exact:
  assumes e: "\<lfloor>log 2 \<bar>v\<bar>\<rfloor> = e" and n: "- 1022 \<le> e"
    and k: "v * 2 powr (52 - of_int e) = of_int k"
  shows "double v = v"
proof -
  have "double v = of_int k * 2 powr (of_int e - 52)"
    using double_in_binade [OF e n k] by (simp add: roundTiesToEven_of_int)
  also have "\<dots> = v * 2 powr (52 - of_int e) * 2 powr (of_int e - 52)"
    using k by simp
  also have "\<dots> = v"
    by (simp add: powr_diff)
  finally show ?thesis .
qed

lemma double_of_int:
  assumes "\<bar>i\<bar> \<le> 2 ^ 53"
  shows "double (of_int i) = of_int i"
proof (cases "i = 0")
  case True
  then show ?thesis by (simp add: double_zero)
next
  case False
  define e where "e = \<lfloor>log 2 \<bar>real_of_int i\<bar>\<rfloor>"
  have e: "\<lfloor>log 2 \<bar>real_of_int i\<bar>\<rfloor> = e" by (simp add: e_def)
  have pos: "0 < \<bar>real_of_int i\<bar>" using False by simp
  have one: "1 \<le> \<bar>real_of_int i\<bar>" using False by (simp flip: of_int_abs)
  have up: "\<bar>real_of_int i\<bar> \<le> 2 ^ 53"
    using assms(1) by (metis of_int_abs of_int_le_iff of_int_numeral of_int_power)
  have "0 \<le> log 2 \<bar>real_of_int i\<bar>" using one by simp
  then have e0: "0 \<le> e" by (simp add: e_def)
  then have n: "- 1022 \<le> e" by simp
  have "log 2 \<bar>real_of_int i\<bar> \<le> 53"
    using pos up by (simp add: log_le_iff)
  then have "e \<le> 53" unfolding e_def by linarith
  show ?thesis
  proof (cases "e \<le> 52")
    case True
    with e0 have "2 powr (52 - real_of_int e) = 2 ^ nat (52 - e)"
      by (metis of_int_diff of_int_numeral powr_real_of_int zero_less_numeral
          diff_ge_0_iff_ge)
    then have "real_of_int i * 2 powr (52 - of_int e) = of_int (i * 2 ^ nat (52 - e))"
      by simp
    with e n show ?thesis by (rule double_exact)
  next
    case False
    with \<open>e \<le> 53\<close> have e53: "e = 53" by simp
    then have "2 powr 53 \<le> \<bar>real_of_int i\<bar>"
      using pos e_def floor_log_eq_powr_iff [of "\<bar>real_of_int i\<bar>" 2 53] by simp
    with up have "\<bar>real_of_int i\<bar> = 2 ^ 53" by simp
    then have "\<bar>i\<bar> = 2 ^ 53"
      by (metis of_int_abs of_int_eq_iff of_int_numeral of_int_power)
    then have "i = 2 ^ 53 \<or> i = - (2 ^ 53)" by linarith
    then have "real_of_int i * 2 powr (52 - of_int e) = of_int (i div 2)"
      unfolding e53 by (auto simp: powr_minus field_simps)
    with e n show ?thesis by (rule double_exact)
  qed
qed



lemma double_numeral:
  "(numeral k :: int) \<le> 9007199254740992 \<Longrightarrow> double (numeral k) = numeral k"
  using double_of_int [of "numeral k"] by simp

lemma double_neg_numeral:
  "(numeral k :: int) \<le> 9007199254740992 \<Longrightarrow> double (- numeral k) = - numeral k"
  using double_of_int [of "- numeral k"] by simp

lemma double_one: "double 1 = 1"
  using double_of_int [of 1] by simp

lemma double_neg_one: "double (- 1) = - 1"
  using double_of_int [of "- 1"] by simp






lemma rounded_isDouble: "isDouble v \<Longrightarrow> rounded v = Finite v"
  by (simp add: isDouble_def rounded_def)

lemma isDouble_of_int:
  assumes "\<bar>i\<bar> \<le> 2 ^ 53"
  shows "isDouble (of_int i)"
proof -
  have "\<bar>real_of_int i\<bar> \<le> 2 ^ 53"
    using assms by (metis of_int_abs of_int_le_iff of_int_numeral of_int_power)
  also have "(2 :: real) ^ 53 < 2 ^ 1024"
    by (rule power_strict_increasing) simp_all
  finally show ?thesis
    using double_of_int [OF assms] by (simp add: isDouble_def)
qed

lemma isDouble_numeral:
  "(numeral k :: int) \<le> 9007199254740992 \<Longrightarrow> isDouble (numeral k)"
  using isDouble_of_int [of "numeral k"] by simp

lemma isDouble_neg_numeral:
  "(numeral k :: int) \<le> 9007199254740992 \<Longrightarrow> isDouble (- numeral k)"
  using isDouble_of_int [of "- numeral k"] by simp

lemma isDouble_zero: "isDouble 0"
  using isDouble_of_int [of 0] by simp

lemma isDouble_one: "isDouble 1"
  using isDouble_of_int [of 1] by simp

lemma isDouble_neg_one: "isDouble (- 1)"
  using isDouble_of_int [of "- 1"] by simp


lemma rounded_zero: "rounded 0 = Finite 0"
  by (rule rounded_isDouble) (rule isDouble_zero)

lemma rounded_one: "rounded 1 = Finite 1"
  by (rule rounded_isDouble) (rule isDouble_one)

lemma rounded_neg_one: "rounded (- 1) = Finite (- 1)"
  by (rule rounded_isDouble) (rule isDouble_neg_one)

lemma rounded_numeral:
  "(numeral k :: int) \<le> 9007199254740992 \<Longrightarrow> rounded (numeral k) = Finite (numeral k)"
  by (rule rounded_isDouble) (rule isDouble_numeral)

lemma rounded_neg_numeral:
  "(numeral k :: int) \<le> 9007199254740992 \<Longrightarrow> rounded (- numeral k) = Finite (- numeral k)"
  by (rule rounded_isDouble) (rule isDouble_neg_numeral)

lemmas rounded_simps =
  rounded_zero rounded_one rounded_neg_one rounded_numeral rounded_neg_numeral number_ge_def



subsection \<open>Absolute coordinates\<close>

lemmas new_defs = new_Rectangle_def new_Circle_def new_CustomText_def new_PalaceContainer_def
  new_Scene_def BaseShape_def

lemma getAbsoluteX_Scene: "isScene (variant (h n)) \<Longrightarrow> getAbsoluteX h n = Some 0"
  by (subst getAbsoluteX.simps) (simp add: isScene_def split: kind.splits)

lemma getAbsoluteX_root:
  "\<not> isScene (variant (h n)) \<Longrightarrow> parent (h n) = None \<Longrightarrow> getAbsoluteX h n = Some (x (h n))"
  by (subst getAbsoluteX.simps) (simp add: isScene_def split: kind.splits)

lemma getAbsoluteX_child:
  "\<not> isScene (variant (h n)) \<Longrightarrow> parent (h n) = Some p \<Longrightarrow>
   getAbsoluteX h n = Option.bind (getAbsoluteX h p) (\<lambda>a. Some (a + x (h n)))"
  by (subst getAbsoluteX.simps) (simp add: isScene_def split: kind.splits)

lemma getAbsoluteY_Scene: "isScene (variant (h n)) \<Longrightarrow> getAbsoluteY h n = Some 0"
  by (subst getAbsoluteY.simps) (simp add: isScene_def split: kind.splits)

lemma getAbsoluteY_root:
  "\<not> isScene (variant (h n)) \<Longrightarrow> parent (h n) = None \<Longrightarrow> getAbsoluteY h n = Some (y (h n))"
  by (subst getAbsoluteY.simps) (simp add: isScene_def split: kind.splits)

lemma getAbsoluteY_child:
  "\<not> isScene (variant (h n)) \<Longrightarrow> parent (h n) = Some p \<Longrightarrow>
   getAbsoluteY h n = Option.bind (getAbsoluteY h p) (\<lambda>a. Some (a + y (h n)))"
  by (subst getAbsoluteY.simps) (simp add: isScene_def split: kind.splits)

lemmas getAbsolute_eval =
  getAbsoluteX_Scene getAbsoluteX_root getAbsoluteX_child
  getAbsoluteY_Scene getAbsoluteY_root getAbsoluteY_child

lemma getAbsoluteX_self_parent:
  assumes "parent (h n) = Some n" and "\<not> isScene (variant (h n))"
  shows "getAbsoluteX h n = None"
proof (cases "getAbsoluteX h n")
  case None
  then show ?thesis .
next
  case (Some v)
  have "\<not> (h = h \<and> n = n)"
  proof (rule getAbsoluteX.raw_induct [where P = "\<lambda>h' m w. \<not> (h' = h \<and> m = n)", OF _ Some])
    fix f :: "heap \<Rightarrow> ref \<Rightarrow> real option" and h' m w
    assume IH: "\<And>a b c. f a b = Some c \<Longrightarrow> \<not> (a = h \<and> b = n)"
    assume step: "(case variant (h' m) of Scene c \<Rightarrow> Some 0
      | _ \<Rightarrow> case parent (h' m) of None \<Rightarrow> Some (x (h' m))
            | Some p \<Rightarrow> Option.bind (f h' p) (\<lambda>a. Some (a + x (h' m)))) = Some w"
    show "\<not> (h' = h \<and> m = n)"
    proof
      assume "h' = h \<and> m = n"
      with step assms obtain a where "f h n = Some a"
        by (auto simp: isScene_def split: kind.splits bind_splits)
      from IH [OF this] show False by simp
    qed
  qed
  then show ?thesis by simp
qed

lemma chain_getAbsoluteX: "chainWithin h k n \<Longrightarrow> \<exists>v. getAbsoluteX h n = Some v"
proof (induction k arbitrary: n)
  case 0
  then show ?case
    by (cases "isScene (variant (h n))") (simp_all add: getAbsoluteX_Scene getAbsoluteX_root)
next
  case (Suc k)
  show ?case
  proof (cases "isScene (variant (h n))")
    case True
    then show ?thesis by (simp add: getAbsoluteX_Scene)
  next
    case notScene: False
    show ?thesis
    proof (cases "parent (h n)")
      case None
      with notScene show ?thesis by (simp add: getAbsoluteX_root)
    next
      case (Some p)
      with Suc.prems have "chainWithin h k p" by simp
      from Suc.IH [OF this] obtain v where "getAbsoluteX h p = Some v" ..
      with notScene Some show ?thesis by (simp add: getAbsoluteX_child)
    qed
  qed
qed

lemma chain_getAbsoluteY: "chainWithin h k n \<Longrightarrow> \<exists>v. getAbsoluteY h n = Some v"
proof (induction k arbitrary: n)
  case 0
  then show ?case
    by (cases "isScene (variant (h n))") (simp_all add: getAbsoluteY_Scene getAbsoluteY_root)
next
  case (Suc k)
  show ?case
  proof (cases "isScene (variant (h n))")
    case True
    then show ?thesis by (simp add: getAbsoluteY_Scene)
  next
    case notScene: False
    show ?thesis
    proof (cases "parent (h n)")
      case None
      with notScene show ?thesis by (simp add: getAbsoluteY_root)
    next
      case (Some p)
      with Suc.prems have "chainWithin h k p" by simp
      from Suc.IH [OF this] obtain v where "getAbsoluteY h p = Some v" ..
      with notScene Some show ?thesis by (simp add: getAbsoluteY_child)
    qed
  qed
qed

subsection \<open>Containment\<close>

lemma containsPoint_default:
  "\<not> isCircle (variant (h n)) \<Longrightarrow> getAbsoluteX h n = Some ax \<Longrightarrow> getAbsoluteY h n = Some ay \<Longrightarrow>
   containsPoint h n px py =
     Some (number_ge (rounded (px - ax)) (Finite 0) \<and>
           number_le (rounded (px - ax)) (Finite (width (h n))) \<and>
           number_ge (rounded (py - ay)) (Finite 0) \<and>
           number_le (rounded (py - ay)) (Finite (height (h n))))"
  by (simp add: containsPoint_def isCircle_def Let_def split: kind.splits)


lemma chain_containsPoint:
  assumes "chainWithin h k n"
  shows "\<exists>b. containsPoint h n px py = Some b"
proof -
  obtain ax ay where "getAbsoluteX h n = Some ax" "getAbsoluteY h n = Some ay"
    using chain_getAbsoluteX [OF assms] chain_getAbsoluteY [OF assms] by blast
  then show ?thesis
    by (simp add: containsPoint_def Let_def split: kind.splits)
qed

lemma chain_onClick:
  assumes "chainWithin h k n"
  shows "\<exists>m. onClick h n e = Some m"
proof -
  obtain ax ay where "getAbsoluteX h n = Some ax" "getAbsoluteY h n = Some ay"
    using chain_getAbsoluteX [OF assms] chain_getAbsoluteY [OF assms] by blast
  then show ?thesis
    by (simp add: onClick_def split: kind.splits)
qed

subsection \<open>removeChild\<close>

lemma indexOf_ge: "- 1 \<le> indexOf cs c"
  by (induction cs) (auto simp: Let_def)

lemma indexOf_absent: "(indexOf cs c = - 1) = (c \<notin> set cs)"
proof (induction cs)
  case Nil
  show ?case by simp
next
  case (Cons a cs)
  have "- 1 \<le> indexOf cs c" by (rule indexOf_ge)
  with Cons show ?case by (auto simp: Let_def)
qed

lemma indexOf_first:
  "c \<in> set cs \<Longrightarrow> \<exists>pre post. cs = pre @ c # post \<and> c \<notin> set pre \<and> indexOf cs c = int (length pre)"
proof (induction cs)
  case Nil
  then show ?case by simp
next
  case (Cons a cs)
  show ?case
  proof (cases "a = c")
    case True
    then have "a # cs = [] @ c # cs \<and> c \<notin> set [] \<and> indexOf (a # cs) c = int (length ([]::ref list))"
      by simp
    then show ?thesis by blast
  next
    case False
    with Cons.prems have "c \<in> set cs" by simp
    from Cons.IH [OF this] obtain pre post where
      p: "cs = pre @ c # post" "c \<notin> set pre" "indexOf cs c = int (length pre)" by blast
    have "a # cs = (a # pre) @ c # post \<and> c \<notin> set (a # pre) \<and>
          indexOf (a # cs) c = int (length (a # pre))"
      using p False by (simp add: Let_def)
    then show ?thesis by blast
  qed
qed

lemma splice1_indexOf: "c \<in> set cs \<Longrightarrow> splice1 cs (nat (indexOf cs c)) = remove1 c cs"
proof -
  assume "c \<in> set cs"
  from indexOf_first [OF this] obtain pre post where
    p: "cs = pre @ c # post" "c \<notin> set pre" "indexOf cs c = int (length pre)" by blast
  show ?thesis
    using p by (simp add: splice1_def remove1_append)
qed

lemma removeChild_absent: "child \<notin> set (children (h this)) \<Longrightarrow> removeChild h this child = h"
  by (simp add: removeChild_def indexOf_absent)

lemma removeChild_present:
  "child \<in> set (children (h this)) \<Longrightarrow>
   removeChild h this child =
     (let h1 = h(this := (h this)\<lparr>children := remove1 child (children (h this))\<rparr>)
      in h1(child := (h1 child)\<lparr>parent := None\<rparr>))"
  by (simp add: removeChild_def indexOf_absent splice1_indexOf)

lemma removeChild_children:
  "children (removeChild h this child this) = remove1 child (children (h this))"
proof (cases "child \<in> set (children (h this))")
  case True
  then show ?thesis by (simp add: removeChild_present Let_def)
next
  case False
  then show ?thesis by (simp add: removeChild_absent remove1_idem)
qed

lemma count_le1_remove1: "count_list cs c \<le> 1 \<Longrightarrow> c \<notin> set (remove1 c cs)"
  by (induction cs) (auto simp: count_list_0_iff split: if_splits)

subsection \<open>Event dispatch\<close>

lemma handleEvent_loop_Nil:
  "handleEvent_loop h e [] this =
     (if ev_type e = ''click'' then Option.bind (onClick h this e) (\<lambda>m. Some [(this, m)])
      else Some [])"
  by (subst handleEvent_loop.simps) simp

lemma handleEvent_loop_Cons:
  "handleEvent_loop h e (c # rest) this =
     Option.bind (containsPoint h c (ev_x e) (ev_y e)) (\<lambda>hit.
       if hit then handleEvent h c e else handleEvent_loop h e rest this)"
  by (subst handleEvent_loop.simps) (simp add: handleEvent_def cong del: if_weak_cong)

lemma handleEvent_loop_miss:
  "\<forall>c \<in> set todo. containsPoint h c (ev_x e) (ev_y e) = Some False \<Longrightarrow>
   handleEvent_loop h e todo this = handleEvent_loop h e [] this"
  by (induction todo) (simp_all add: handleEvent_loop_Cons)

lemma handleEvent_loop_hit:
  "\<forall>d \<in> set before. containsPoint h d (ev_x e) (ev_y e) = Some False \<Longrightarrow>
   containsPoint h c (ev_x e) (ev_y e) = Some True \<Longrightarrow>
   handleEvent_loop h e (before @ c # after) this = handleEvent h c e"
  by (induction before) (simp_all add: handleEvent_loop_Cons)

lemma delivered_mono: "delivered e S calls \<Longrightarrow> S \<subseteq> T \<Longrightarrow> delivered e T calls"
  by (auto simp: delivered_def split: if_splits)

lemma subtree_self: "n \<in> subtree h d n"
  by (cases d) simp_all

lemma handleEvent_loop_returns:
  "depthWithin h d n \<Longrightarrow> \<forall>m \<in> subtree h d n. chainWithin h k m \<Longrightarrow>
   set todo \<subseteq> set (children (h n)) \<Longrightarrow>
   \<exists>calls. handleEvent_loop h e todo n = Some calls \<and> delivered e (subtree h d n) calls"
proof (induction d arbitrary: n todo)
  case 0
  then have todo: "todo = []" by simp
  have "chainWithin h k n" using "0.prems"(2) by simp
  from chain_onClick [OF this] obtain m where "onClick h n e = Some m" ..
  then show ?case
    by (simp add: todo handleEvent_loop_Nil delivered_def)
next
  case (Suc d)
  from Suc.prems(3) show ?case
  proof (induction todo)
    case Nil
    have "chainWithin h k n" using Suc.prems(2) by simp
    from chain_onClick [OF this] obtain m where "onClick h n e = Some m" ..
    then show ?case
      by (simp add: handleEvent_loop_Nil delivered_def)
  next
    case (Cons c rest)
    then have c: "c \<in> set (children (h n))" and rest: "set rest \<subseteq> set (children (h n))"
      by simp_all
    have sub: "subtree h d c \<subseteq> subtree h (Suc d) n" using c by auto
    have "c \<in> subtree h (Suc d) n" using sub subtree_self by blast
    then have "chainWithin h k c" using Suc.prems(2) by blast
    from chain_containsPoint [OF this] obtain b where
      b: "containsPoint h c (ev_x e) (ev_y e) = Some b" ..
    show ?case
    proof (cases b)
      case True
      have dc: "depthWithin h d c" using Suc.prems(1) c by simp
      have cc: "\<forall>m \<in> subtree h d c. chainWithin h k m" using Suc.prems(2) sub by blast
      from Suc.IH [OF dc cc, of "rev (children (h c))"] obtain calls where
        "handleEvent h c e = Some calls" "delivered e (subtree h d c) calls"
        by (auto simp: handleEvent_def)
      with b True sub show ?thesis
        by (auto simp: handleEvent_loop_Cons intro: delivered_mono)
    next
      case False
      with b Cons.IH [OF rest] show ?thesis
        by (simp add: handleEvent_loop_Cons)
    qed
  qed
qed

lemma handleEvent_returns:
  "depthWithin h d n \<Longrightarrow> \<forall>m \<in> subtree h d n. chainWithin h k m \<Longrightarrow>
   \<exists>calls. handleEvent h n e = Some calls \<and> delivered e (subtree h d n) calls"
  unfolding handleEvent_def by (rule handleEvent_loop_returns) simp_all

subsection \<open>Drawing\<close>

lemma sameLayout_refl: "sameLayout h h"
  by (simp add: sameLayout_def)

lemma sameLayout_sym: "sameLayout h h' \<Longrightarrow> sameLayout h' h"
  by (simp add: sameLayout_def)

lemma sameLayout_trans: "sameLayout h h' \<Longrightarrow> sameLayout h' h'' \<Longrightarrow> sameLayout h h''"
  by (simp add: sameLayout_def)

lemma sameLayout_getAbsoluteX_Some:
  assumes "getAbsoluteX h n = Some v"
  shows "\<forall>h'. sameLayout h h' \<longrightarrow> getAbsoluteX h' n = Some v"
proof (rule getAbsoluteX.raw_induct
    [where P = "\<lambda>h n v. \<forall>h'. sameLayout h h' \<longrightarrow> getAbsoluteX h' n = Some v", OF _ assms])
  fix f :: "heap \<Rightarrow> ref \<Rightarrow> real option" and h n v
  assume IH: "\<And>a b c. f a b = Some c \<Longrightarrow> \<forall>h'. sameLayout a h' \<longrightarrow> getAbsoluteX h' b = Some c"
  assume step: "(case variant (h n) of Scene c \<Rightarrow> Some 0
      | _ \<Rightarrow> case parent (h n) of None \<Rightarrow> Some (x (h n))
            | Some p \<Rightarrow> Option.bind (f h p) (\<lambda>a. Some (a + x (h n)))) = Some v"
  show "\<forall>h'. sameLayout h h' \<longrightarrow> getAbsoluteX h' n = Some v"
  proof (intro allI impI)
    fix h'
    assume sl: "sameLayout h h'"
    then have eq: "variant (h' n) = variant (h n)" "parent (h' n) = parent (h n)"
      "x (h' n) = x (h n)"
      by (simp_all add: sameLayout_def)
    show "getAbsoluteX h' n = Some v"
    proof (cases "isScene (variant (h n))")
      case True
      with step eq show ?thesis
        by (auto simp: getAbsoluteX_Scene isScene_def split: kind.splits)
    next
      case notScene: False
      show ?thesis
      proof (cases "parent (h n)")
        case None
        with step notScene eq show ?thesis
          by (auto simp: getAbsoluteX_root isScene_def split: kind.splits)
      next
        case (Some p)
        with step notScene obtain a where a: "f h p = Some a" "v = a + x (h n)"
          by (auto simp: isScene_def split: kind.splits bind_splits)
        from IH [OF a(1)] sl have "getAbsoluteX h' p = Some a" by blast
        with Some notScene eq a(2) show ?thesis
          by (simp add: getAbsoluteX_child [of h' n p])
      qed
    qed
  qed
qed

lemma sameLayout_getAbsoluteY_Some:
  assumes "getAbsoluteY h n = Some v"
  shows "\<forall>h'. sameLayout h h' \<longrightarrow> getAbsoluteY h' n = Some v"
proof (rule getAbsoluteY.raw_induct
    [where P = "\<lambda>h n v. \<forall>h'. sameLayout h h' \<longrightarrow> getAbsoluteY h' n = Some v", OF _ assms])
  fix f :: "heap \<Rightarrow> ref \<Rightarrow> real option" and h n v
  assume IH: "\<And>a b c. f a b = Some c \<Longrightarrow> \<forall>h'. sameLayout a h' \<longrightarrow> getAbsoluteY h' b = Some c"
  assume step: "(case variant (h n) of Scene c \<Rightarrow> Some 0
      | _ \<Rightarrow> case parent (h n) of None \<Rightarrow> Some (y (h n))
            | Some p \<Rightarrow> Option.bind (f h p) (\<lambda>a. Some (a + y (h n)))) = Some v"
  show "\<forall>h'. sameLayout h h' \<longrightarrow> getAbsoluteY h' n = Some v"
  proof (intro allI impI)
    fix h'
    assume sl: "sameLayout h h'"
    then have eq: "variant (h' n) = variant (h n)" "parent (h' n) = parent (h n)"
      "y (h' n) = y (h n)"
      by (simp_all add: sameLayout_def)
    show "getAbsoluteY h' n = Some v"
    proof (cases "isScene (variant (h n))")
      case True
      with step eq show ?thesis
        by (auto simp: getAbsoluteY_Scene isScene_def split: kind.splits)
    next
      case notScene: False
      show ?thesis
      proof (cases "parent (h n)")
        case None
        with step notScene eq show ?thesis
          by (auto simp: getAbsoluteY_root isScene_def split: kind.splits)
      next
        case (Some p)
        with step notScene obtain a where a: "f h p = Some a" "v = a + y (h n)"
          by (auto simp: isScene_def split: kind.splits bind_splits)
        from IH [OF a(1)] sl have "getAbsoluteY h' p = Some a" by blast
        with Some notScene eq a(2) show ?thesis
          by (simp add: getAbsoluteY_child [of h' n p])
      qed
    qed
  qed
qed

lemma sameLayout_getAbsoluteX: "sameLayout h h' \<Longrightarrow> getAbsoluteX h' n = getAbsoluteX h n"
proof (cases "getAbsoluteX h n")
  case (Some v)
  assume "sameLayout h h'"
  with sameLayout_getAbsoluteX_Some [OF Some] show ?thesis using Some by simp
next
  case None
  assume sl: "sameLayout h h'"
  show ?thesis
  proof (cases "getAbsoluteX h' n")
    case None
    with \<open>getAbsoluteX h n = None\<close> show ?thesis by simp
  next
    case (Some v)
    from sameLayout_getAbsoluteX_Some [OF Some] sameLayout_sym [OF sl]
    have "getAbsoluteX h n = Some v" by blast
    with \<open>getAbsoluteX h n = None\<close> show ?thesis by simp
  qed
qed

lemma sameLayout_getAbsoluteY: "sameLayout h h' \<Longrightarrow> getAbsoluteY h' n = getAbsoluteY h n"
proof (cases "getAbsoluteY h n")
  case (Some v)
  assume "sameLayout h h'"
  with sameLayout_getAbsoluteY_Some [OF Some] show ?thesis using Some by simp
next
  case None
  assume sl: "sameLayout h h'"
  show ?thesis
  proof (cases "getAbsoluteY h' n")
    case None
    with \<open>getAbsoluteY h n = None\<close> show ?thesis by simp
  next
    case (Some v)
    from sameLayout_getAbsoluteY_Some [OF Some] sameLayout_sym [OF sl]
    have "getAbsoluteY h n = Some v" by blast
    with \<open>getAbsoluteY h n = None\<close> show ?thesis by simp
  qed
qed

lemma fillLines_eq:
  "fillLines str ax ay g =
     (g\<lparr>commands := commands g @
          map (\<lambda>i. FillText [str ! i] ax (ay + 20 * (real i + 1))) [0..<length str]\<rparr>,
      ay + 20 * real (length str))"
proof (induction str arbitrary: ay g)
  case Nil
  show ?case by simp
next
  case (Cons item items)
  have "map (\<lambda>i. FillText [(item # items) ! i] ax (ay + 20 * (real i + 1))) [0..<length (item # items)]
      = FillText [item] ax (ay + 20) #
        map (\<lambda>i. FillText [items ! i] ax (ay + 20 + 20 * (real i + 1))) [0..<length items]"
    by (simp add: map_upt_Suc algebra_simps del: upt_Suc)
  then show ?case
    by (simp add: Cons.IH emit_def Let_def algebra_simps del: upt_Suc)
qed

lemma grown_refl: "grown s s"
  by (simp add: grown_def)

lemma grown_trans: "grown s s' \<Longrightarrow> grown s' s'' \<Longrightarrow> grown s s''"
  unfolding grown_def
proof
  fix c
  assume a: "\<forall>c. \<exists>more. commands (contexts s' c) = commands (contexts s c) @ more"
    and b: "\<forall>c. \<exists>more. commands (contexts s'' c) = commands (contexts s' c) @ more"
  from a obtain m1 where "commands (contexts s' c) = commands (contexts s c) @ m1" by blast
  moreover from b obtain m2 where "commands (contexts s'' c) = commands (contexts s' c) @ m2"
    by blast
  ultimately have "commands (contexts s'' c) = commands (contexts s c) @ (m1 @ m2)" by simp
  then show "\<exists>more. commands (contexts s'' c) = commands (contexts s c) @ more" ..
qed

lemma paint_CustomText:
  assumes "variant (shapes s this) = CustomText str fnt fillColor"
    and "getAbsoluteX (shapes s) this = Some ax" and "getAbsoluteY (shapes s) this = Some ay"
  shows "paint M this ctx s =
     Some (s\<lparr>contexts := (contexts s)(ctx := (contexts s ctx)
                \<lparr>font := fnt, fillStyle := fillColor,
                 commands := commands (contexts s ctx) @
                   map (\<lambda>i. FillText [str ! i] ax (ay + 20 * (real i + 1))) [0..<length str]\<rparr>),
             shapes := (shapes s)(this := (shapes s this)
                \<lparr>width := M fnt (firstItem str), height := ay + 20 * real (length str) + 20\<rparr>)\<rparr>)"
  using assms by (simp add: paint_def Let_def fillLines_eq)

lemma paint_returns_iff:
  "(\<exists>s'. paint M this ctx s = Some s') =
   ((\<exists>ax. getAbsoluteX (shapes s) this = Some ax) \<and> (\<exists>ay. getAbsoluteY (shapes s) this = Some ay))"
proof (cases "isScene (variant (shapes s this))")
  case True
  then show ?thesis
    by (auto simp: paint_def Let_def getAbsoluteX_Scene getAbsoluteY_Scene isScene_def
        split: kind.splits)
next
  case False
  then show ?thesis
    by (cases "getAbsoluteX (shapes s) this"; cases "getAbsoluteY (shapes s) this")
      (auto simp: paint_def Let_def isScene_def fillLines_eq split: kind.splits)
qed

lemma paint_sameLayout: "paint M this ctx s = Some s' \<Longrightarrow> sameLayout (shapes s) (shapes s')"
  by (auto simp: paint_def Let_def sameLayout_def fillLines_eq split: kind.splits bind_splits)

lemma paint_grown: "paint M this ctx s = Some s' \<Longrightarrow> grown s s'"
  by (auto simp: paint_def Let_def grown_def emit_def fillLines_eq split: kind.splits bind_splits)

lemma paint_other: "paint M this ctx s = Some s' \<Longrightarrow> m \<noteq> this \<Longrightarrow> shapes s' m = shapes s m"
  by (auto simp: paint_def Let_def fillLines_eq split: kind.splits bind_splits)

lemma forEach_invariant:
  assumes "\<And>c s s'. I s \<Longrightarrow> f c s = Some s' \<Longrightarrow> I s'"
  shows "I s \<Longrightarrow> forEach cs f s = Some s' \<Longrightarrow> I s'"
proof (induction cs arbitrary: s)
  case Nil
  then show ?case by simp
next
  case (Cons c cs)
  from Cons.prems(2) obtain s1 where s1: "f c s = Some s1" "forEach cs f s1 = Some s'"
    by (auto split: bind_splits)
  from assms [OF Cons.prems(1) s1(1)] have "I s1" .
  from Cons.IH [OF this s1(2)] show ?case .
qed

lemma draw_invariant:
  assumes "\<And>m c s s'. I s \<Longrightarrow> paint M m c s = Some s' \<Longrightarrow> I s'"
  shows "I s \<Longrightarrow> draw M depth this ctx s = Some s' \<Longrightarrow> I s'"
proof (induction depth arbitrary: this ctx s s')
  case 0
  then show ?case by simp
next
  case (Suc depth)
  from Suc.prems(2) obtain s1 where
    s1: "paint M this ctx s = Some s1"
    "forEach (children (shapes s1 this))
       (\<lambda>child. draw M depth child (childContext (shapes s1) this ctx)) s1 = Some s'"
    by (auto split: bind_splits)
  from assms [OF Suc.prems(1) s1(1)] have "I s1" .
  show ?case
  proof (rule forEach_invariant [where I = I, OF _ \<open>I s1\<close> s1(2)])
    fix c t t'
    assume "I t" and "draw M depth c (childContext (shapes s1) this ctx) t = Some t'"
    then show "I t'" by (rule Suc.IH)
  qed
qed

lemma draw_sameLayout: "draw M depth this ctx s = Some s' \<Longrightarrow> sameLayout (shapes s) (shapes s')"
  by (rule draw_invariant [where I = "\<lambda>t. sameLayout (shapes s) (shapes t)"])
    (auto intro: sameLayout_refl sameLayout_trans paint_sameLayout)

lemma draw_grown: "draw M depth this ctx s = Some s' \<Longrightarrow> grown s s'"
  by (rule draw_invariant [where I = "\<lambda>t. grown s t"])
    (auto intro: grown_refl grown_trans paint_grown)

lemma paint_settled:
  assumes v: "variant (h n) = CustomText str fnt fillColor"
    and ay: "getAbsoluteY h n = Some ay"
    and sl: "sameLayout h (shapes s)"
    and p: "paint M m c s = Some s'"
    and pre: "m \<noteq> n \<longrightarrow> settled M h n str fnt ay s"
  shows "settled M h n str fnt ay s'"
proof -
  have sl': "sameLayout h (shapes s')"
    using sl paint_sameLayout [OF p] by (rule sameLayout_trans)
  show ?thesis
  proof (cases "m = n")
    case False
    with pre paint_other [OF p, of n] sl' show ?thesis by (simp add: settled_def)
  next
    case True
    have v': "variant (shapes s n) = CustomText str fnt fillColor"
      using sl v by (simp add: sameLayout_def)
    have ay': "getAbsoluteY (shapes s) n = Some ay"
      using sl ay by (simp add: sameLayout_getAbsoluteY)
    from p True paint_returns_iff [of M n c s] obtain ax where
      ax: "getAbsoluteX (shapes s) n = Some ax" by blast
    from p True paint_CustomText [OF v' ax ay', of M c] sl' show ?thesis
      by (auto simp: settled_def)
  qed
qed

lemma draw_settled:
  assumes v: "variant (h n) = CustomText str fnt fillColor"
    and ay: "getAbsoluteY h n = Some ay"
  shows "settled M h n str fnt ay s \<Longrightarrow> draw M depth this ctx s = Some s' \<Longrightarrow>
         settled M h n str fnt ay s'"
proof (rule draw_invariant [where I = "settled M h n str fnt ay"])
  fix m c s s'
  assume "settled M h n str fnt ay s" and "paint M m c s = Some s'"
  then show "settled M h n str fnt ay s'"
    using paint_settled [OF v ay, of s M m c s'] by (simp add: settled_def)
qed

lemma forEach_append:
  "forEach (as @ bs) f s = Option.bind (forEach as f s) (forEach bs f)"
  by (induction as arbitrary: s) (simp_all split: bind_splits)

lemma forEach_returns:
  "(\<forall>c \<in> set cs. \<forall>s. I s \<longrightarrow> (\<exists>s'. f c s = Some s' \<and> I s')) \<Longrightarrow> I s \<Longrightarrow>
   \<exists>s'. forEach cs f s = Some s' \<and> I s'"
proof (induction cs arbitrary: s)
  case Nil
  then show ?case by simp
next
  case (Cons c cs)
  from Cons.prems obtain s1 where s1: "f c s = Some s1" "I s1" by auto
  from Cons.prems(1) have "\<forall>c \<in> set cs. \<forall>s. I s \<longrightarrow> (\<exists>s'. f c s = Some s' \<and> I s')" by simp
  from Cons.IH [OF this s1(2)] s1(1) show ?case by simp
qed

lemma sameLayout_chainWithin: "sameLayout h h' \<Longrightarrow> chainWithin h' k n = chainWithin h k n"
  by (induction k arbitrary: n) (simp_all add: sameLayout_def split: option.splits)

lemma paint_returns:
  assumes "chainWithin h k n" and "sameLayout h (shapes s)"
  shows "\<exists>s'. paint M n c s = Some s'"
proof -
  have "chainWithin (shapes s) k n" using assms by (simp add: sameLayout_chainWithin)
  then show ?thesis
    using chain_getAbsoluteX chain_getAbsoluteY by (simp add: paint_returns_iff)
qed

lemma draw_returns:
  "depthWithin h d n \<Longrightarrow> \<forall>m \<in> subtree h d n. chainWithin h k m \<Longrightarrow>
   sameLayout h (shapes s) \<Longrightarrow> \<exists>s'. draw M (Suc d) n c s = Some s'"
proof (induction d arbitrary: n c s)
  case 0
  have "chainWithin h k n" using "0.prems"(2) by simp
  from paint_returns [OF this "0.prems"(3)] obtain s1 where s1: "paint M n c s = Some s1" ..
  have "sameLayout h (shapes s1)"
    using "0.prems"(3) paint_sameLayout [OF s1] by (rule sameLayout_trans)
  then have "children (shapes s1 n) = []" using "0.prems"(1) by (simp add: sameLayout_def)
  with s1 show ?case by simp
next
  case (Suc d)
  have "chainWithin h k n" using Suc.prems(2) by simp
  from paint_returns [OF this Suc.prems(3)] obtain s1 where s1: "paint M n c s = Some s1" ..
  have sl1: "sameLayout h (shapes s1)"
    using Suc.prems(3) paint_sameLayout [OF s1] by (rule sameLayout_trans)
  then have cs: "children (shapes s1 n) = children (h n)" by (simp add: sameLayout_def)
  let ?f = "\<lambda>child. draw M (Suc d) child (childContext (shapes s1) n c)"
  have "\<forall>ch \<in> set (children (h n)). \<forall>t. sameLayout h (shapes t) \<longrightarrow>
          (\<exists>t'. ?f ch t = Some t' \<and> sameLayout h (shapes t'))"
  proof (intro ballI allI impI)
    fix ch and t :: state
    assume ch: "ch \<in> set (children (h n))" and t: "sameLayout h (shapes t)"
    have d: "depthWithin h d ch" using Suc.prems(1) ch by simp
    have "subtree h d ch \<subseteq> subtree h (Suc d) n" using ch by auto
    then have k: "\<forall>m \<in> subtree h d ch. chainWithin h k m" using Suc.prems(2) by blast
    from Suc.IH [OF d k t] obtain t' where t': "?f ch t = Some t'" ..
    have "sameLayout h (shapes t')"
      using t draw_sameLayout [OF t'] by (rule sameLayout_trans)
    with t' show "\<exists>t'. ?f ch t = Some t' \<and> sameLayout h (shapes t')" by blast
  qed
  from forEach_returns [where I = "\<lambda>t. sameLayout h (shapes t)", OF this sl1]
  obtain s' where "forEach (children (h n)) ?f s1 = Some s'" by blast
  with s1 cs show ?case by simp
qed

lemma forEach_replay:
  assumes IH: "\<And>ch u u' w. draw M depth ch cc u = Some u' \<Longrightarrow>
                 sameLayout (shapes u) (shapes w) \<Longrightarrow> \<exists>w'. draw M depth ch cc' w = Some w'"
  shows "forEach cs (\<lambda>ch. draw M depth ch cc) u = Some u' \<Longrightarrow>
         sameLayout (shapes u) (shapes w) \<Longrightarrow>
         \<exists>w'. forEach cs (\<lambda>ch. draw M depth ch cc') w = Some w'"
proof (induction cs arbitrary: u w)
  case Nil
  then show ?case by simp
next
  case (Cons ch cs)
  from Cons.prems(1) obtain u1 where
    u1: "draw M depth ch cc u = Some u1" "forEach cs (\<lambda>ch. draw M depth ch cc) u1 = Some u'"
    by (auto split: bind_splits)
  from IH [OF u1(1) Cons.prems(2)] obtain w1 where w1: "draw M depth ch cc' w = Some w1" ..
  have "sameLayout (shapes u1) (shapes u)"
    using draw_sameLayout [OF u1(1)] by (rule sameLayout_sym)
  then have "sameLayout (shapes u1) (shapes w)"
    using Cons.prems(2) by (rule sameLayout_trans)
  then have "sameLayout (shapes u1) (shapes w1)"
    using draw_sameLayout [OF w1] by (rule sameLayout_trans)
  from Cons.IH [OF u1(2) this] w1 show ?case by simp
qed

lemma draw_replay:
  "draw M depth n c s = Some s' \<Longrightarrow> sameLayout (shapes s) (shapes t) \<Longrightarrow>
   \<exists>t'. draw M depth n c' t = Some t'"
proof (induction depth arbitrary: n c c' s s' t)
  case 0
  then show ?case by simp
next
  case (Suc depth)
  from Suc.prems(1) obtain s1 where
    s1: "paint M n c s = Some s1"
    "forEach (children (shapes s1 n))
       (\<lambda>child. draw M depth child (childContext (shapes s1) n c)) s1 = Some s'"
    by (auto split: bind_splits)
  from s1(1) have "\<exists>s'. paint M n c s = Some s'" ..
  then have "\<exists>t'. paint M n c' t = Some t'"
    using Suc.prems(2)
    by (simp add: paint_returns_iff sameLayout_getAbsoluteX sameLayout_getAbsoluteY)
  then obtain t1 where t1: "paint M n c' t = Some t1" ..
  have "sameLayout (shapes s1) (shapes s)"
    using paint_sameLayout [OF s1(1)] by (rule sameLayout_sym)
  then have "sameLayout (shapes s1) (shapes t)"
    using Suc.prems(2) by (rule sameLayout_trans)
  then have sl: "sameLayout (shapes s1) (shapes t1)"
    using paint_sameLayout [OF t1] by (rule sameLayout_trans)
  then have cs: "children (shapes t1 n) = children (shapes s1 n)"
    by (simp add: sameLayout_def)
  have "\<exists>t'. forEach (children (shapes s1 n))
          (\<lambda>child. draw M depth child (childContext (shapes t1) n c')) t1 = Some t'"
    using s1(2) sl by (rule forEach_replay [rotated]) (rule Suc.IH)
  with t1 cs show ?case by simp
qed

lemma forEach_cong_Some:
  assumes "\<And>c t t'. f c t = Some t' \<Longrightarrow> g c t = Some t'"
  shows "forEach cs f s = Some s' \<Longrightarrow> forEach cs g s = Some s'"
proof (induction cs arbitrary: s)
  case Nil
  then show ?case by simp
next
  case (Cons c cs)
  from Cons.prems obtain s1 where s1: "f c s = Some s1" "forEach cs f s1 = Some s'"
    by (auto split: bind_splits)
  from assms [OF s1(1)] Cons.IH [OF s1(2)] show ?case by simp
qed

lemma draw_deeper: "draw M depth n c s = Some s' \<Longrightarrow> draw M (depth + j) n c s = Some s'"
proof (induction depth arbitrary: n c s s')
  case 0
  then show ?case by simp
next
  case (Suc depth)
  from Suc.prems obtain s1 where
    s1: "paint M n c s = Some s1"
    "forEach (children (shapes s1 n))
       (\<lambda>child. draw M depth child (childContext (shapes s1) n c)) s1 = Some s'"
    by (auto split: bind_splits)
  have "forEach (children (shapes s1 n))
       (\<lambda>child. draw M (depth + j) child (childContext (shapes s1) n c)) s1 = Some s'"
    using s1(2) by (rule forEach_cong_Some [rotated]) (rule Suc.IH)
  with s1(1) show ?case by simp
qed

lemma draw_reaches_settled:
  assumes v: "variant (h n) = CustomText str fnt fillColor"
    and ay: "getAbsoluteY h n = Some ay"
  shows "n \<in> subtree h j anc \<Longrightarrow> sameLayout h (shapes s) \<Longrightarrow>
         draw M depth anc c s = Some s' \<Longrightarrow> settled M h n str fnt ay s'"
proof (induction j arbitrary: anc depth c s s')
  case 0
  then have anc: "anc = n" by simp
  from "0.prems"(3) obtain depth' where depth: "depth = Suc depth'"
    by (cases depth) simp_all
  from "0.prems"(3) obtain s1 where
    s1: "paint M n c s = Some s1"
    "forEach (children (shapes s1 n))
       (\<lambda>child. draw M depth' child (childContext (shapes s1) n c)) s1 = Some s'"
    unfolding anc depth by (auto split: bind_splits)
  have "settled M h n str fnt ay s1"
    using paint_settled [OF v ay "0.prems"(2) s1(1)] by simp
  then show ?case using s1(2)
    by (rule forEach_invariant [rotated]) (rule draw_settled [OF v ay])
next
  case (Suc j)
  from Suc.prems(3) obtain depth' where depth: "depth = Suc depth'"
    by (cases depth) simp_all
  from Suc.prems(3) obtain s1 where
    s1: "paint M anc c s = Some s1"
    "forEach (children (shapes s1 anc))
       (\<lambda>child. draw M depth' child (childContext (shapes s1) anc c)) s1 = Some s'"
    unfolding depth by (auto split: bind_splits)
  let ?f = "\<lambda>child. draw M depth' child (childContext (shapes s1) anc c)"
  have sl1: "sameLayout h (shapes s1)"
    using Suc.prems(2) paint_sameLayout [OF s1(1)] by (rule sameLayout_trans)
  show ?case
  proof (cases "anc = n")
    case True
    have "settled M h n str fnt ay s1"
      using paint_settled [OF v ay Suc.prems(2) s1(1)] True by simp
    then show ?thesis using s1(2)
      by (rule forEach_invariant [rotated]) (rule draw_settled [OF v ay])
  next
    case False
    with Suc.prems(1) obtain ch where ch: "ch \<in> set (children (h anc))" "n \<in> subtree h j ch"
      by auto
    have "children (shapes s1 anc) = children (h anc)"
      using sl1 by (simp add: sameLayout_def)
    with ch(1) obtain before after where
      split: "children (shapes s1 anc) = before @ ch # after"
      by (auto simp: in_set_conv_decomp)
    from s1(2) obtain u where
      u: "forEach before ?f s1 = Some u" "forEach (ch # after) ?f u = Some s'"
      unfolding split forEach_append by (auto split: bind_splits)
    from u(2) obtain u1 where
      u1: "?f ch u = Some u1" "forEach after ?f u1 = Some s'"
      by (auto split: bind_splits)
    have "sameLayout h (shapes u)"
      using sl1 u(1)
      by (rule forEach_invariant [where I = "\<lambda>t. sameLayout h (shapes t)", rotated])
        (auto intro: sameLayout_trans draw_sameLayout)
    from Suc.IH [OF ch(2) this u1(1)] have "settled M h n str fnt ay u1" .
    then show ?thesis using u1(2)
      by (rule forEach_invariant [rotated]) (rule draw_settled [OF v ay])
  qed
qed

lemma draw_CustomText_own_lines:
  assumes v: "variant (shapes s n) = CustomText str fnt fillColor"
    and ax: "getAbsoluteX (shapes s) n = Some ax" and ay: "getAbsoluteY (shapes s) n = Some ay"
    and d: "draw M depth n ctx s = Some s'"
  shows "\<exists>more. commands (contexts s' ctx) =
           commands (contexts s ctx) @
           map (\<lambda>i. FillText [str ! i] ax (ay + 20 * (real i + 1))) [0..<length str] @ more"
proof -
  from d obtain depth' where depth: "depth = Suc depth'" by (cases depth) simp_all
  let ?s1 = "s\<lparr>contexts := (contexts s)(ctx := (contexts s ctx)
                \<lparr>font := fnt, fillStyle := fillColor,
                 commands := commands (contexts s ctx) @
                   map (\<lambda>i. FillText [str ! i] ax (ay + 20 * (real i + 1))) [0..<length str]\<rparr>),
             shapes := (shapes s)(n := (shapes s n)
                \<lparr>width := M fnt (firstItem str), height := ay + 20 * real (length str) + 20\<rparr>)\<rparr>"
  have p: "paint M n ctx s = Some ?s1" by (rule paint_CustomText [OF v ax ay])
  with d have f: "forEach (children (shapes ?s1 n))
       (\<lambda>child. draw M depth' child (childContext (shapes ?s1) n ctx)) ?s1 = Some s'"
    unfolding depth by simp
  have "grown ?s1 s'"
    using grown_refl f
    by (rule forEach_invariant [where I = "\<lambda>t. grown ?s1 t", rotated])
      (auto intro: grown_trans draw_grown)
  then obtain more where "commands (contexts s' ctx) = commands (contexts ?s1 ctx) @ more"
    unfolding grown_def by blast
  then show ?thesis by simp
qed

section \<open>Facts about the examples\<close>

lemma palace_nodes:
  "palace 0 = \<lparr>x = 0, y = 0, width = 760, height = 920, children = [1], parent = None,
                variant = Scene 0\<rparr>"
  "palace 1 = \<lparr>x = 60, y = 60, width = 160, height = 200, children = [2, 4], parent = Some 0,
                variant = PalaceContainer ''black''\<rparr>"
  "palace 2 = \<lparr>x = 0, y = 140, width = 40, height = 60, children = [3], parent = Some 1,
                variant = Rectangle ''black''\<rparr>"
  "palace 3 = \<lparr>x = 10, y = 11, width = 0, height = 0, children = [], parent = Some 2,
                variant = CustomText ''ab'' ''20px Arial'' ''black''\<rparr>"
  "palace 4 = \<lparr>x = 40, y = 140, width = 80, height = 60, children = [], parent = Some 1,
                variant = Rectangle ''black''\<rparr>"
  by (simp_all add: palace_def blank_def addChild_def new_defs)

lemma palace_positions:
  "getAbsoluteX palace 0 = Some 0" "getAbsoluteY palace 0 = Some 0"
  "getAbsoluteX palace 1 = Some 60" "getAbsoluteY palace 1 = Some 60"
  "getAbsoluteX palace 2 = Some 60" "getAbsoluteY palace 2 = Some 200"
  "getAbsoluteX palace 3 = Some 70" "getAbsoluteY palace 3 = Some 211"
  "getAbsoluteX palace 4 = Some 100" "getAbsoluteY palace 4 = Some 200"
  using palace_nodes by (simp_all add: getAbsolute_eval isScene_def)


lemma rect_under_scene_nodes:
  "rect_under_scene 0 = \<lparr>x = 0, y = 0, width = 300, height = 150, children = [1], parent = None,
                variant = Scene 0\<rparr>"
  "rect_under_scene 1 = \<lparr>x = 0, y = 0, width = 100, height = 50, children = [],
                parent = Some 0, variant = Rectangle ''blue''\<rparr>"
  by (simp_all add: rect_under_scene_def blank_def addChild_def new_defs)


lemma rect_under_scene_facts:
  "\<not> isCircle (variant (rect_under_scene 1))"
  "getAbsoluteX rect_under_scene 1 = Some 0"
  "getAbsoluteY rect_under_scene 1 = Some 0"
  "width (rect_under_scene 1) = 100"
  "height (rect_under_scene 1) = 50"
  using rect_under_scene_nodes by (simp_all add: getAbsolute_eval isScene_def isCircle_def)


lemma added_twice_nodes:
  "added_twice 0 = \<lparr>x = 0, y = 0, width = 160, height = 200, children = [1, 1], parent = None,
                variant = PalaceContainer ''black''\<rparr>"
  by (simp add: added_twice_def blank_def addChild_def new_defs)

lemma rect_under_scene_miss:
  "\<forall>c \<in> set (children (rect_under_scene 0)). containsPoint rect_under_scene c 150 150 = Some False"
  using rect_under_scene_nodes rect_under_scene_facts(2,3)
  by (simp add: containsPoint_def rounded_simps)



lemma three_children_nodes:
  "three_children 0 = \<lparr>x = 0, y = 0, width = 300, height = 300, children = [1, 2, 3],
                parent = None, variant = Scene 0\<rparr>"
  "three_children 1 = \<lparr>x = 0, y = 0, width = 100, height = 100, children = [],
                parent = Some 0, variant = Rectangle ''black''\<rparr>"
  "three_children 2 = \<lparr>x = 50, y = 50, width = 100, height = 100, children = [],
                parent = Some 0, variant = Rectangle ''black''\<rparr>"
  "three_children 3 = \<lparr>x = 60, y = 60, width = 100, height = 100, children = [],
                parent = Some 0, variant = Rectangle ''black''\<rparr>"
  by (simp_all add: three_children_def blank_def addChild_def new_defs)

lemma three_children_positions:
  "getAbsoluteX three_children 1 = Some 0" "getAbsoluteY three_children 1 = Some 0"
  "getAbsoluteX three_children 2 = Some 50" "getAbsoluteY three_children 2 = Some 50"
  "getAbsoluteX three_children 3 = Some 60" "getAbsoluteY three_children 3 = Some 60"
  using three_children_nodes by (simp_all add: getAbsolute_eval isScene_def)

lemma three_children_hits:
  "containsPoint three_children 1 55 55 = Some True"
  "containsPoint three_children 2 55 55 = Some True"
  "containsPoint three_children 3 55 55 = Some False"
  "containsPoint three_children 1 70 70 = Some True"
  "containsPoint three_children 2 70 70 = Some True"
  "containsPoint three_children 3 70 70 = Some True"
  using three_children_nodes three_children_positions
  by (simp_all add: containsPoint_def rounded_simps)

lemma three_children_shape:
  "depthWithin three_children 1 0"
  "\<forall>m \<in> subtree three_children 1 0. chainWithin three_children 1 m"
  using three_children_nodes by simp_all

lemma palace_shape:
  "chainWithin palace 3 3"
  "depthWithin palace 3 0"
  "\<forall>m \<in> subtree palace 3 0. chainWithin palace 3 m"
  using palace_nodes by (simp_all add: eval_nat_numeral)

lemma stale_child_nodes:
  "stale_child 0 = \<lparr>x = 0, y = 0, width = 160, height = 200, children = [1], parent = None,
                variant = PalaceContainer ''black''\<rparr>"
  "stale_child 1 = \<lparr>x = 0, y = 0, width = 40, height = 60, children = [], parent = Some 2,
                variant = Rectangle ''black''\<rparr>"
  "stale_child 2 = \<lparr>x = 0, y = 0, width = 40, height = 60, children = [2, 1], parent = Some 2,
                variant = Rectangle ''black''\<rparr>"
  by (simp_all add: stale_child_def blank_def addChild_def new_defs)

lemma stale_and_fresh_nodes:
  "stale_and_fresh 0 = \<lparr>x = 0, y = 0, width = 160, height = 200, children = [1, 3],
                parent = None, variant = PalaceContainer ''black''\<rparr>"
  "stale_and_fresh 1 = \<lparr>x = 0, y = 0, width = 40, height = 60, children = [], parent = Some 2,
                variant = Rectangle ''black''\<rparr>"
  "stale_and_fresh 2 = \<lparr>x = 0, y = 0, width = 40, height = 60, children = [2, 1],
                parent = Some 2, variant = Rectangle ''black''\<rparr>"
  "stale_and_fresh 3 = \<lparr>x = 0, y = 0, width = 40, height = 60, children = [], parent = Some 0,
                variant = Rectangle ''black''\<rparr>"
  using stale_child_nodes by (simp_all add: stale_and_fresh_def addChild_def new_defs)

lemma stale_and_fresh_positions:
  "getAbsoluteX stale_and_fresh 3 = Some 0" "getAbsoluteY stale_and_fresh 3 = Some 0"
  "getAbsoluteX stale_and_fresh 1 = None"
proof -
  show "getAbsoluteX stale_and_fresh 3 = Some 0" "getAbsoluteY stale_and_fresh 3 = Some 0"
    using stale_and_fresh_nodes(1,4) by (simp_all add: getAbsolute_eval isScene_def)
  have p: "parent (stale_and_fresh 1) = Some 2" "parent (stale_and_fresh 2) = Some 2"
    "\<not> isScene (variant (stale_and_fresh 1))" "\<not> isScene (variant (stale_and_fresh 2))"
    using stale_and_fresh_nodes by (simp_all add: isScene_def)
  have q: "getAbsoluteX stale_and_fresh 2 = None"
    using p by (intro getAbsoluteX_self_parent)
  show "getAbsoluteX stale_and_fresh 1 = None"
    unfolding getAbsoluteX_child [of stale_and_fresh 1 2, OF p(3) p(1)] q by simp
qed

lemma stale_and_fresh_hits:
  "containsPoint stale_and_fresh 1 10 10 = None"
  "containsPoint stale_and_fresh 3 10 10 = Some True"
  using stale_and_fresh_nodes(2,4) stale_and_fresh_positions
  by (simp_all add: containsPoint_def rounded_simps)

lemma palace_state_text:
  "variant (shapes palace_state 3) = CustomText ''ab'' ''20px Arial'' ''black''"
  "getAbsoluteX (shapes palace_state) 3 = Some 70"
  "getAbsoluteY (shapes palace_state) 3 = Some 211"
  "depthWithin (shapes palace_state) 0 3"
  "\<forall>m \<in> subtree (shapes palace_state) 0 3. chainWithin (shapes palace_state) 3 m"
  using palace_nodes palace_positions(7,8) palace_shape(1)
  by (simp_all add: palace_state_def)

lemma palace_state_tree:
  "depthWithin (shapes palace_state) 3 0"
  "\<forall>m \<in> subtree (shapes palace_state) 3 0. chainWithin (shapes palace_state) 3 m"
  using palace_shape(2,3) by (simp_all add: palace_state_def)

lemma palace_state_reach: "3 \<in> subtree (shapes palace_state) 3 0"
  using palace_nodes(1-3) by (simp add: palace_state_def eval_nat_numeral)

lemma draw_palace_text:
  "draw tenPerChar (Suc 0) 3 0 palace_state = Some palace_text_drawn"
proof -
  have "paint tenPerChar 3 0 palace_state = Some palace_text_drawn"
    unfolding paint_CustomText [OF palace_state_text(1-3)]
    by (simp add: palace_state_def palace_text_drawn_def tenPerChar_def firstItem_def
        newContext_def)
  moreover have "children (shapes palace_text_drawn 3) = []"
    using palace_nodes(4) by (simp add: palace_text_drawn_def)
  ultimately show ?thesis by simp
qed

lemma shared_child_nodes:
  "shared_child 0 = \<lparr>x = 0, y = 0, width = 300, height = 300, children = [1, 2, 3],
                parent = None, variant = Scene 0\<rparr>"
  "shared_child 1 = \<lparr>x = 0, y = 0, width = 100, height = 100, children = [],
                parent = Some 3, variant = Rectangle ''black''\<rparr>"
  "shared_child 2 = \<lparr>x = 50, y = 50, width = 100, height = 100, children = [],
                parent = Some 0, variant = Rectangle ''black''\<rparr>"
  "shared_child 3 = \<lparr>x = 60, y = 60, width = 100, height = 100, children = [1],
                parent = Some 0, variant = Rectangle ''black''\<rparr>"
  using three_children_nodes by (simp_all add: shared_child_def addChild_def)

lemma shared_child_positions:
  "getAbsoluteX shared_child 1 = Some 60" "getAbsoluteY shared_child 1 = Some 60"
  "getAbsoluteX shared_child 2 = Some 50" "getAbsoluteY shared_child 2 = Some 50"
  "getAbsoluteX shared_child 3 = Some 60" "getAbsoluteY shared_child 3 = Some 60"
  using shared_child_nodes by (simp_all add: getAbsolute_eval isScene_def)

lemma shared_child_hits:
  "containsPoint shared_child 1 70 70 = Some True"
  "containsPoint shared_child 2 70 70 = Some True"
  "containsPoint shared_child 3 70 70 = Some True"
  using shared_child_nodes shared_child_positions
  by (simp_all add: containsPoint_def rounded_simps)

lemma stale_child_test_diverges: "containsPoint stale_child 1 px py = None"
proof -
  have p: "parent (stale_child 1) = Some 2" "parent (stale_child 2) = Some 2"
    "\<not> isScene (variant (stale_child 1))" "\<not> isScene (variant (stale_child 2))"
    using stale_child_nodes by (simp_all add: isScene_def)
  have q: "getAbsoluteX stale_child 2 = None"
    using p by (intro getAbsoluteX_self_parent)
  have "getAbsoluteX stale_child 1 = None"
    unfolding getAbsoluteX_child [of stale_child 1 2, OF p(3) p(1)] q by simp
  then show ?thesis
    using stale_child_nodes(2) by (simp add: containsPoint_def)
qed








lemma palace_text_drawn_facts:
  "\<not> isCircle (variant (shapes palace_text_drawn 3))"
  "getAbsoluteX (shapes palace_text_drawn) 3 = Some 70"
  "getAbsoluteY (shapes palace_text_drawn) 3 = Some 211"
  "width (shapes palace_text_drawn 3) = 10"
  "height (shapes palace_text_drawn 3) = 271"
proof -
  have "sameLayout palace (shapes palace_text_drawn)"
    by (simp add: sameLayout_def palace_text_drawn_def)
  then show "getAbsoluteX (shapes palace_text_drawn) 3 = Some 70"
    "getAbsoluteY (shapes palace_text_drawn) 3 = Some 211"
    using palace_positions(7,8) by (simp_all add: sameLayout_getAbsoluteX sameLayout_getAbsoluteY)
  show "\<not> isCircle (variant (shapes palace_text_drawn 3))"
    "width (shapes palace_text_drawn 3) = 10" "height (shapes palace_text_drawn 3) = 271"
    using palace_nodes(4) by (simp_all add: palace_text_drawn_def isCircle_def)
qed

section \<open>The claims\<close>

subsection \<open>C1: absolute positions\<close>




subsection \<open>C2: dispatch to the last-added child that contains the point\<close>

text \<open>
  C2, as the code has it. \<open>handleEvent\<close> tests the children from the last one backwards.
  If \<open>c\<close> is the last child of the sequence that contains the point (every later
  sibling does not), the call is the call of \<open>handleEvent\<close> on \<open>c\<close>: nothing is
  assumed of the earlier siblings, which are never tested. With the children a, b, c in
  this order, b and c containing the point, the event goes into c; for a click, when the
  child tree of c has depth at most \<open>d\<close> and its nodes have parent chains of at most
  \<open>k\<close> links, exactly one handler runs, and it is the handler of c or of a node of
  the child tree of c: never that of a or b, unless they lie in the child tree of c
  themselves. For a click on a node whose child tree has depth at most \<open>d\<close> and whose
  nodes have parent chains of at most \<open>k\<close> links, \<open>handleEvent\<close> returns after
  exactly one handler call, and the receiver is a node of that tree.
\<close>

theorem handleEvent_last_containing_child:
  "(children (h this) = earlier @ c # later \<and>
    containsPoint h c (ev_x e) (ev_y e) = Some True \<and>
    (\<forall>s \<in> set later. containsPoint h s (ev_x e) (ev_y e) = Some False) \<longrightarrow>
      handleEvent h this e = handleEvent h c e) \<and>
   (children (h this) = [a, b, c] \<and>
    containsPoint h b (ev_x e) (ev_y e) = Some True \<and>
    containsPoint h c (ev_x e) (ev_y e) = Some True \<longrightarrow>
      handleEvent h this e = handleEvent h c e \<and>
      (ev_type e = ''click'' \<and> depthWithin h d c \<and>
       (\<forall>m \<in> subtree h d c. chainWithin h k m) \<longrightarrow>
         (\<exists>r \<in> subtree h d c. \<exists>m.
            handleEvent h this e = Some [(r, m)] \<and>
            (a \<notin> subtree h d c \<longrightarrow> r \<noteq> a) \<and> (b \<notin> subtree h d c \<longrightarrow> r \<noteq> b)))) \<and>
   (ev_type e = ''click'' \<and> depthWithin h d this \<and>
    (\<forall>m \<in> subtree h d this. chainWithin h k m) \<longrightarrow>
      (\<exists>r \<in> subtree h d this. \<exists>m. handleEvent h this e = Some [(r, m)]))"
proof (intro conjI impI)
  assume a: "children (h this) = earlier @ c # later \<and>
    containsPoint h c (ev_x e) (ev_y e) = Some True \<and>
    (\<forall>s \<in> set later. containsPoint h s (ev_x e) (ev_y e) = Some False)"
  then have "rev (children (h this)) = rev later @ c # rev earlier" by simp
  moreover have "handleEvent_loop h e (rev later @ c # rev earlier) this = handleEvent h c e"
    using a by (intro handleEvent_loop_hit) simp_all
  ultimately show "handleEvent h this e = handleEvent h c e"
    by (simp add: handleEvent_def)
next
  assume a: "children (h this) = [a, b, c] \<and>
    containsPoint h b (ev_x e) (ev_y e) = Some True \<and>
    containsPoint h c (ev_x e) (ev_y e) = Some True"
  then show into: "handleEvent h this e = handleEvent h c e"
    by (simp add: handleEvent_def [of h this] handleEvent_loop_Cons)
  assume b: "ev_type e = ''click'' \<and> depthWithin h d c \<and>
    (\<forall>m \<in> subtree h d c. chainWithin h k m)"
  then obtain calls where
    "handleEvent h c e = Some calls" "delivered e (subtree h d c) calls"
    using handleEvent_returns [of h d c k e] by blast
  with b obtain r m where "r \<in> subtree h d c" "handleEvent h c e = Some [(r, m)]"
    by (auto simp: delivered_def)
  with into show "\<exists>r \<in> subtree h d c. \<exists>m.
            handleEvent h this e = Some [(r, m)] \<and>
            (a \<notin> subtree h d c \<longrightarrow> r \<noteq> a) \<and> (b \<notin> subtree h d c \<longrightarrow> r \<noteq> b)"
    by auto
next
  assume a: "ev_type e = ''click'' \<and> depthWithin h d this \<and>
    (\<forall>m \<in> subtree h d this. chainWithin h k m)"
  then obtain calls where
    "handleEvent h this e = Some calls" "delivered e (subtree h d this) calls"
    using handleEvent_returns [of h d this k e] by blast
  with a show "\<exists>r \<in> subtree h d this. \<exists>m. handleEvent h this e = Some [(r, m)]"
    by (auto simp: delivered_def)
qed

text \<open>
  The three overlapping rectangles 1, 2, 3 under the root: (70, 70) lies in all three and
  the click runs the handler of 3, one handler and neither that of 1 nor that of 2;
  (55, 55) lies in 1 and 2 only and the click runs the handler of 2. In the last example
  the container 0 has the children 1 and 3; testing 1 would not return (its parent chain
  is cyclic), but 3 contains the point and 1 is never tested.
\<close>

theorem handleEvent_last_containing_child_witness:
  "handleEvent three_children 0 (MouseClickEvent 70 70) = Some [(3, ClickedOnRectangle 60 60)] \<and>
   subtree three_children 0 3 = {3} \<and>
   (\<exists>m. handleEvent three_children 0 (MouseClickEvent 70 70) = Some [(3, m)]) \<and>
   handleEvent three_children 0 (MouseClickEvent 55 55) = Some [(2, ClickedOnRectangle 50 50)] \<and>
   containsPoint stale_and_fresh 1 10 10 = None \<and>
   handleEvent stale_and_fresh 0 (MouseClickEvent 10 10) = Some [(3, ClickedOnRectangle 0 0)]"
proof -
  let ?e = "MouseClickEvent 70 70" and ?e' = "MouseClickEvent 55 55"
  have l: "handleEvent three_children 3 ?e = Some [(3, ClickedOnRectangle 60 60)]"
    "handleEvent three_children 2 ?e' = Some [(2, ClickedOnRectangle 50 50)]"
    using three_children_nodes three_children_positions
    by (simp_all add: handleEvent_def handleEvent_loop_Nil MouseClickEvent_def onClick_def)
  have t: "depthWithin three_children 0 3" "subtree three_children 0 3 = {3}"
    "chainWithin three_children 1 3"
    using three_children_nodes by simp_all
  have "handleEvent three_children 0 ?e = handleEvent three_children 3 ?e"
    using handleEvent_last_containing_child [of three_children 0 "[1, 2]" 3 "[]" ?e 1 2 1 1]
      three_children_nodes(1) three_children_hits three_children_shape
    by (simp add: MouseClickEvent_def)
  moreover have "\<exists>m. handleEvent three_children 0 ?e = Some [(3, m)]"
  proof -
    have hit: "children (three_children 0) = [1, 2, 3] \<and>
        containsPoint three_children 2 (ev_x ?e) (ev_y ?e) = Some True \<and>
        containsPoint three_children 3 (ev_x ?e) (ev_y ?e) = Some True"
      using three_children_nodes(1) three_children_hits by (simp add: MouseClickEvent_def)
    have tree: "ev_type ?e = ''click'' \<and> depthWithin three_children 0 3 \<and>
        (\<forall>m \<in> subtree three_children 0 3. chainWithin three_children 1 m)"
      using t by (simp add: MouseClickEvent_def)
    note into = handleEvent_last_containing_child
      [of three_children 0 "[1, 2]" 3 "[]" ?e 1 2 0 1, THEN conjunct2, THEN conjunct1, THEN mp,
       OF hit]
    from into [THEN conjunct2, THEN mp, OF tree] obtain r m where
      "r \<in> subtree three_children 0 3" "handleEvent three_children 0 ?e = Some [(r, m)]"
      by blast
    then show ?thesis by simp
  qed
  moreover have "handleEvent three_children 0 ?e' = handleEvent three_children 2 ?e'"
    using handleEvent_last_containing_child [of three_children 0 "[1]" 2 "[3]" ?e']
      three_children_nodes(1) three_children_hits
    by (simp add: MouseClickEvent_def)
  moreover have "handleEvent stale_and_fresh 0 (MouseClickEvent 10 10) =
      handleEvent stale_and_fresh 3 (MouseClickEvent 10 10)"
    using handleEvent_last_containing_child
        [of stale_and_fresh 0 "[1]" 3 "[]" "MouseClickEvent 10 10"]
      stale_and_fresh_nodes(1) stale_and_fresh_hits(2)
    by (simp add: MouseClickEvent_def)
  moreover have "handleEvent stale_and_fresh 3 (MouseClickEvent 10 10) =
      Some [(3, ClickedOnRectangle 0 0)]"
    using stale_and_fresh_nodes(4) stale_and_fresh_positions(1,2)
    by (simp add: handleEvent_def handleEvent_loop_Nil MouseClickEvent_def onClick_def)
  ultimately show ?thesis using l stale_and_fresh_hits(1) t(2) by simp
qed

text \<open>
  C2 as stated fails in two ways. Let the Rectangle 1 be added to the root and then, as
  \<open>addChild\<close> allows, to the Rectangle 3 as well: the root has the children 1, 2, 3
  in this order, 2 and 3 contain (70, 70), the event is delivered into 3, and the handler
  that runs is that of 1, the first child of the root. And a click need not run a
  handler at all: on the container 0 whose only child 1 has a cyclic parent chain the
  dispatch does not return and no handler runs.
\<close>

theorem handleEvent_runs_handler_of_first_child:
  "children (shared_child 0) = [1, 2, 3] \<and>
   containsPoint shared_child 2 70 70 = Some True \<and>
   containsPoint shared_child 3 70 70 = Some True \<and>
   handleEvent shared_child 0 (MouseClickEvent 70 70) = Some [(1, ClickedOnRectangle 60 60)] \<and>
   children (stale_child 0) = [1] \<and>
   ev_type (MouseClickEvent 20 20) = ''click'' \<and>
   handleEvent stale_child 0 (MouseClickEvent 20 20) = None"
proof -
  have "handleEvent shared_child 1 (MouseClickEvent 70 70) = Some [(1, ClickedOnRectangle 60 60)]"
    using shared_child_nodes(2) shared_child_positions(1,2)
    by (simp add: handleEvent_def handleEvent_loop_Nil MouseClickEvent_def onClick_def)
  then have "handleEvent shared_child 3 (MouseClickEvent 70 70) =
      Some [(1, ClickedOnRectangle 60 60)]"
    using shared_child_nodes(4) shared_child_hits(1)
    by (simp add: handleEvent_def [of _ 3] handleEvent_loop_Cons MouseClickEvent_def)
  then have "handleEvent shared_child 0 (MouseClickEvent 70 70) =
      Some [(1, ClickedOnRectangle 60 60)]"
    using shared_child_nodes(1) shared_child_hits(3)
    by (simp add: handleEvent_def [of _ 0] handleEvent_loop_Cons MouseClickEvent_def)
  moreover have "handleEvent stale_child 0 (MouseClickEvent 20 20) = None"
    using stale_child_nodes(1) stale_child_test_diverges [of 20 20]
    by (simp add: handleEvent_def handleEvent_loop_Cons MouseClickEvent_def)
  ultimately show ?thesis
    using shared_child_nodes(1) shared_child_hits(2,3) stale_child_nodes(1)
    by (simp add: MouseClickEvent_def)
qed

subsection \<open>C3: the default containment test\<close>




subsection \<open>C4: the containment test of Circle\<close>




subsection \<open>C5: what CustomText.draw paints and measures\<close>

text \<open>
  C5 at the text 3 of the palace example, ''ab'' at the absolute position (70, 211),
  measured at 10 units a character. \<open>draw\<close> paints 'a' at y = 231 and 'b' at y = 251,
  20 further down for each character, and sets the width to 10, the measured width of
  the first character. The height it stores is 271: the absolute position 211 of the
  text, plus the two lines, plus 20. The bounds used for click detection then reach from
  y = 211 down to y = 482: the point (75, 482), far below the last line, is inside.
\<close>

theorem CustomText_height_holds_absolute_offset:
  "getAbsoluteY (shapes palace_state) 3 = Some 211 \<and>
   map_option (\<lambda>s'. commands (contexts s' 0)) (draw tenPerChar 1 3 0 palace_state) =
     Some [FillText ''a'' 70 231, FillText ''b'' 70 251] \<and>
   map_option (\<lambda>s'. width (shapes s' 3)) (draw tenPerChar 1 3 0 palace_state) = Some 10 \<and>
   map_option (\<lambda>s'. height (shapes s' 3)) (draw tenPerChar 1 3 0 palace_state) = Some 271 \<and>
   map_option (\<lambda>s'. containsPoint (shapes s') 3 75 482) (draw tenPerChar 1 3 0 palace_state) =
     Some (Some True) \<and>
   map_option (\<lambda>s'. containsPoint (shapes s') 3 75 483) (draw tenPerChar 1 3 0 palace_state) =
     Some (Some False)"
proof -
  have "containsPoint (shapes palace_text_drawn) 3 75 482 = Some True"
    "containsPoint (shapes palace_text_drawn) 3 75 483 = Some False"
    using palace_text_drawn_facts(4,5)
    by (simp_all add: containsPoint_default [OF palace_text_drawn_facts(1-3)] rounded_simps)
  moreover have "commands (contexts palace_text_drawn 0) =
      [FillText ''a'' 70 231, FillText ''b'' 70 251]"
    by (simp add: palace_text_drawn_def newContext_def)
  ultimately show ?thesis
    using draw_palace_text palace_state_text(3) palace_text_drawn_facts(4,5) by simp
qed

subsection \<open>C6: removeChild\<close>

text \<open>
  C6, as the code has it. \<open>removeChild\<close> removes the first occurrence of the child
  from the child sequence of the receiver; when the child was present it clears the
  parent link of the child and leaves every other object as it was; when the child is
  not present the store is unchanged. The model of \<open>removeChild\<close> is a total function:
  no call throws. A second call with the same child changes nothing when the child
  occurred at most once in the sequence.
\<close>

theorem removeChild_first_occurrence:
  "children (removeChild h this child this) = remove1 child (children (h this)) \<and>
   (child \<in> set (children (h this)) \<longrightarrow>
      parent (removeChild h this child child) = None \<and>
      (\<forall>m. m \<noteq> this \<and> m \<noteq> child \<longrightarrow> removeChild h this child m = h m)) \<and>
   (child \<notin> set (children (h this)) \<longrightarrow> removeChild h this child = h) \<and>
   (count_list (children (h this)) child \<le> 1 \<longrightarrow>
      removeChild (removeChild h this child) this child = removeChild h this child)"
proof (intro conjI impI)
  show "children (removeChild h this child this) = remove1 child (children (h this))"
    by (rule removeChild_children)
next
  assume "child \<in> set (children (h this))"
  then show "parent (removeChild h this child child) = None"
    by (simp add: removeChild_present Let_def)
next
  assume "child \<in> set (children (h this))"
  then show "\<forall>m. m \<noteq> this \<and> m \<noteq> child \<longrightarrow> removeChild h this child m = h m"
    by (simp add: removeChild_present Let_def)
next
  assume "child \<notin> set (children (h this))"
  then show "removeChild h this child = h" by (rule removeChild_absent)
next
  assume "count_list (children (h this)) child \<le> 1"
  then have "child \<notin> set (remove1 child (children (h this)))" by (rule count_le1_remove1)
  then have "child \<notin> set (children (removeChild h this child this))"
    by (simp add: removeChild_children)
  then show "removeChild (removeChild h this child) this child = removeChild h this child"
    by (rule removeChild_absent)
qed

text \<open>
  Removing the footer 2 from the palace 1 leaves the other footer 4 and clears the
  parent of 2; removing the text 3, which is no child of 1, changes nothing; removing 2
  a second time changes nothing.
\<close>

theorem removeChild_first_occurrence_witness:
  "children (removeChild palace 1 2 1) = [4] \<and>
   parent (removeChild palace 1 2 2) = None \<and>
   removeChild palace 1 2 4 = palace 4 \<and>
   removeChild palace 1 3 = palace \<and>
   removeChild (removeChild palace 1 2) 1 2 = removeChild palace 1 2"
  using removeChild_first_occurrence [of palace 1 2]
    removeChild_first_occurrence [of palace 1 3] palace_nodes(2)
  by simp

text \<open>
  C6 as stated fails when the child was added twice (\<open>addChild\<close> checks no
  duplicates): the second \<open>removeChild\<close> removes the remaining occurrence.
\<close>

theorem removeChild_twice_with_duplicate:
  "children (added_twice 0) = [1, 1] \<and>
   children (removeChild added_twice 0 1 0) = [1] \<and>
   children (removeChild (removeChild added_twice 0 1) 0 1 0) = [] \<and>
   removeChild (removeChild added_twice 0 1) 0 1 \<noteq> removeChild added_twice 0 1"
proof -
  have c: "children (added_twice 0) = [1, 1]"
    "children (removeChild added_twice 0 1 0) = [1]"
    "children (removeChild (removeChild added_twice 0 1) 0 1 0) = []"
    using added_twice_nodes by (simp_all add: removeChild_children)
  then have "removeChild (removeChild added_twice 0 1) 0 1 \<noteq> removeChild added_twice 0 1"
    by (metis list.distinct(1))
  with c show ?thesis by simp
qed

subsection \<open>C7: the handler of the node itself\<close>

text \<open>
  C7. When no child of the node contains the point of the event, \<open>handleEvent\<close> calls
  the click handler of the node itself, once, if the kind tag of the event is
  \<open>click\<close>; for any other kind tag it makes no handler call. \<open>handleEvent\<close> never
  writes to an object.
\<close>

theorem handleEvent_falls_through:
  assumes "\<forall>c \<in> set (children (h this)). containsPoint h c (ev_x e) (ev_y e) = Some False"
  shows "handleEvent h this e =
           (if ev_type e = ''click'' then map_option (\<lambda>m. [(this, m)]) (onClick h this e)
            else Some [])"
proof -
  have "handleEvent h this e = handleEvent_loop h e [] this"
    unfolding handleEvent_def using assms by (intro handleEvent_loop_miss) simp
  then show ?thesis
    by (cases "onClick h this e") (simp_all add: handleEvent_loop_Nil)
qed

text \<open>
  A click at (150, 150) on the root whose only child covers (0,0)-(100,50) runs the
  handler of the root; an event of another kind at the same point runs none.
\<close>

theorem handleEvent_falls_through_witness:
  "handleEvent rect_under_scene 0 (MouseClickEvent 150 150) = Some [(0, ClickedOnShape 0 0)] \<and>
   handleEvent rect_under_scene 0 (HandleEvent ''mousemove'' 150 150) = Some []"
  using handleEvent_falls_through [of rect_under_scene 0 "MouseClickEvent 150 150"]
    handleEvent_falls_through [of rect_under_scene 0 "HandleEvent ''mousemove'' 150 150"]
    rect_under_scene_miss rect_under_scene_nodes(1)
  by (simp add: MouseClickEvent_def onClick_def)

subsection \<open>C8: repeated draws of a text\<close>

text \<open>
  C8. After a first draw of a text node, a further draw (on any context) returns and
  recomputes the width and the height of the node to the same values; and so does every
  draw of the node in a state where it holds the same string and font and has the same
  absolute Y. The measurement \<open>M\<close> is a function of the font and the text only.
\<close>

theorem CustomText_draw_stable:
  assumes v: "variant (shapes s n) = CustomText str fnt fillColor"
    and d: "draw M depth n ctx s = Some s1"
  shows "(\<exists>s2. draw M depth n ctx' s1 = Some s2 \<and>
               width (shapes s2 n) = width (shapes s1 n) \<and>
               height (shapes s2 n) = height (shapes s1 n)) \<and>
         (\<forall>t depth' c t'.
            variant (shapes t n) = variant (shapes s n) \<and>
            getAbsoluteY (shapes t) n = getAbsoluteY (shapes s) n \<and>
            draw M depth' n c t = Some t' \<longrightarrow>
            width (shapes t' n) = width (shapes s1 n) \<and>
            height (shapes t' n) = height (shapes s1 n))"
proof -
  from d obtain depth0 where depth: "depth = Suc depth0" by (cases depth) simp_all
  from d have "\<exists>u. paint M n ctx s = Some u"
    unfolding depth by (auto split: bind_splits)
  then obtain ay where ay: "getAbsoluteY (shapes s) n = Some ay"
    by (auto simp: paint_returns_iff)
  have self: "\<And>h. n \<in> subtree h 0 n" by simp
  have st1: "settled M (shapes s) n str fnt ay s1"
    using draw_reaches_settled [OF v ay self sameLayout_refl d] .
  have later: "width (shapes t' n) = width (shapes s1 n) \<and>
               height (shapes t' n) = height (shapes s1 n)"
    if t: "variant (shapes t n) = variant (shapes s n)"
      "getAbsoluteY (shapes t) n = getAbsoluteY (shapes s) n"
      "draw M depth' n c t = Some t'"
    for t t' :: state and depth' c
  proof -
    have "settled M (shapes t) n str fnt ay t'"
      using draw_reaches_settled [OF _ _ self sameLayout_refl t(3), of str fnt fillColor ay]
        t(1,2) v ay by simp
    with st1 show ?thesis by (simp add: settled_def)
  qed
  have sl: "sameLayout (shapes s) (shapes s1)" using d by (rule draw_sameLayout)
  from draw_replay [OF d sl] obtain s2 where s2: "draw M depth n ctx' s1 = Some s2" ..
  have "variant (shapes s1 n) = variant (shapes s n)"
    using sl by (simp add: sameLayout_def)
  moreover have "getAbsoluteY (shapes s1) n = getAbsoluteY (shapes s) n"
    using sl by (rule sameLayout_getAbsoluteY)
  ultimately have "width (shapes s2 n) = width (shapes s1 n) \<and>
                   height (shapes s2 n) = height (shapes s1 n)"
    using s2 by (rule later)
  with s2 later show ?thesis by blast
qed

text \<open>
  Drawing the text 3 of the palace example twice: the second draw leaves the bounds 10
  by 271 of the first.
\<close>

theorem CustomText_draw_stable_witness:
  "map_option (\<lambda>s1. (width (shapes s1 3), height (shapes s1 3)))
     (draw tenPerChar 1 3 0 palace_state) = Some (10, 271) \<and>
   map_option (\<lambda>s2. (width (shapes s2 3), height (shapes s2 3)))
     (Option.bind (draw tenPerChar 1 3 0 palace_state) (draw tenPerChar 1 3 0)) = Some (10, 271)"
proof -
  have one: "draw tenPerChar 1 3 0 palace_state = Some palace_text_drawn"
    using draw_palace_text by simp
  note main = CustomText_draw_stable [OF palace_state_text(1) one, of 0]
  then obtain s2 where
    s2: "draw tenPerChar 1 3 0 palace_text_drawn = Some s2"
    "width (shapes s2 3) = width (shapes palace_text_drawn 3)"
    "height (shapes s2 3) = height (shapes palace_text_drawn 3)"
    by blast
  have "variant (shapes palace_text_drawn 3) = variant (shapes palace_state 3)"
    "getAbsoluteY (shapes palace_text_drawn) 3 = getAbsoluteY (shapes palace_state) 3"
    using sameLayout_getAbsoluteY [OF draw_sameLayout [OF one]] draw_sameLayout [OF one]
    by (simp_all add: sameLayout_def)
  with main s2(1) have "width (shapes s2 3) = width (shapes palace_text_drawn 3)" by blast
  then show ?thesis
    unfolding one using s2 by (simp add: palace_text_drawn_def)
qed

subsection \<open>C9: addChild on a node that already has a parent\<close>




subsection \<open>C10: termination\<close>

text \<open>
  C10, as the code has it. On a node whose parent chain is finite (at most \<open>k\<close> links),
  \<open>getAbsoluteX\<close> and \<open>getAbsoluteY\<close> return. On a node whose child tree is finite
  (depth at most \<open>d\<close>) and all of whose nodes have a finite parent chain, \<open>handleEvent\<close>
  returns.
\<close>

theorem resolution_and_dispatch_terminate:
  "(chainWithin h k n \<longrightarrow>
      (\<exists>v. getAbsoluteX h n = Some v) \<and> (\<exists>v. getAbsoluteY h n = Some v)) \<and>
   (depthWithin h d n \<and> (\<forall>m \<in> subtree h d n. chainWithin h k m) \<longrightarrow>
      (\<exists>calls. handleEvent h n e = Some calls))"
proof (intro conjI impI)
  assume "chainWithin h k n"
  then show "\<exists>v. getAbsoluteX h n = Some v" by (rule chain_getAbsoluteX)
next
  assume "chainWithin h k n"
  then show "\<exists>v. getAbsoluteY h n = Some v" by (rule chain_getAbsoluteY)
next
  assume "depthWithin h d n \<and> (\<forall>m \<in> subtree h d n. chainWithin h k m)"
  then obtain calls where "handleEvent h n e = Some calls"
    using handleEvent_returns [of h d n k e] by blast
  then show "\<exists>calls. handleEvent h n e = Some calls" ..
qed

text \<open>
  In the palace example the chain of the text 3 has three links and the tree of the root
  has depth three: the position of 3 resolves and a click on the root is dispatched.
\<close>

theorem resolution_and_dispatch_terminate_witness:
  "(\<exists>v. getAbsoluteX palace 3 = Some v) \<and> (\<exists>v. getAbsoluteY palace 3 = Some v) \<and>
   (\<exists>calls. handleEvent palace 0 (MouseClickEvent 75 215) = Some calls)"
  using resolution_and_dispatch_terminate [of palace 3 3 3 "MouseClickEvent 75 215"]
    resolution_and_dispatch_terminate [of palace 3 0 3 "MouseClickEvent 75 215"]
    palace_shape
  by simp

text \<open>
  C10 as stated fails for \<open>handleEvent\<close>: the child tree of the container 0 is finite
  and acyclic (its only child 1 has no children), but the parent link of 1 leads to the
  Rectangle 2, which is its own parent. \<open>handleEvent\<close> on 0 asks 1 whether it contains
  the point, and resolving the position of 1 does not return.
\<close>

theorem handleEvent_diverges_on_stale_child:
  "children (stale_child 0) = [1] \<and> children (stale_child 1) = [] \<and>
   depthWithin stale_child 1 0 \<and>
   handleEvent stale_child 0 (MouseClickEvent 10 10) = None"
proof -
  have c: "children (stale_child 0) = [1]" "children (stale_child 1) = []"
    using stale_child_nodes by simp_all
  have "containsPoint stale_child 1 10 10 = None"
    by (rule stale_child_test_diverges)
  then have "handleEvent stale_child 0 (MouseClickEvent 10 10) = None"
    by (simp add: handleEvent_def c handleEvent_loop_Cons MouseClickEvent_def)
  with c show ?thesis by simp
qed

end
